theory Spec2Isabelle
  imports Complex_Main "HOL-Library.Char_ord" "HOL-Library.List_Lexorder" "HOL-Library.Word"
begin

chapter \<open>The program\<close>

section \<open>Data model (src/types/index.ts)\<close>

text \<open>
  The records follow the zod schemas of \<^verbatim>\<open>src/types/index.ts\<close>. JavaScript strings are
  modelled as \<^typ>\<open>string\<close>, one \<^typ>\<open>char\<close> per code unit; JavaScript numbers that hold
  counts are modelled as \<^typ>\<open>int\<close> or \<^typ>\<open>nat\<close>, and the two quotients of the program
  (instability, similarity) as exact rationals. The program computes the quotients in
  double precision; its comparisons of them with 0.5, 0.7 and 0.85 come out as on the
  exact values as long as the counts and lengths stay far below \<open>2\<^sup>5\<^sup>3\<close>.

  Record fields share one name space with each other and with the keywords of Isabelle,
  so some fields are renamed: \<open>ctype\<close>, \<open>imports_list\<close> and \<open>exports_list\<close> of a component,
  \<open>similarity_of\<close> of a duplication instance, \<open>file_path\<close>, \<open>function_name\<close>,
  \<open>fn_linesOfCode\<close> and \<open>fn_score\<close> of a complexity metric.
\<close>

datatype component_type = Page | Component | Layout | Api | Utility

record ComponentInfo =
  name :: string
  path :: string
  ctype :: component_type
  imports_list :: "string list"
  exports_list :: "string list"
  dependencies :: "string list"
  linesOfCode :: int

datatype coupling_score = Good | Moderate | High

record CouplingMetric =
  component :: string
  afferentCoupling :: nat
  efferentCoupling :: nat
  instability :: rat
  score :: coupling_score

record DuplicationInstance =
  files :: "string list"
  lines :: nat
  similarity_of :: rat
  snippet :: string
  suggestion :: string

datatype complexity_score = Simple | ModerateC | Complex | VeryComplex

record ComplexityMetric =
  file_path :: string
  function_name :: string
  cyclomaticComplexity :: int
  cognitiveComplexity :: int
  fn_linesOfCode :: nat
  fn_score :: complexity_score

datatype severity_level = Warning | Error

record CircularDependency =
  cycle :: "string list"
  severity :: severity_level

text \<open>The argument object of \<^verbatim>\<open>calculateHealthScore\<close>.\<close>

record metrics =
  coupling :: "CouplingMetric list"
  duplication :: "DuplicationInstance list"
  complexity :: "ComplexityMetric list"
  circularDependencies :: "CircularDependency list"

section \<open>Health scorer (calculateHealthScore)\<close>

text \<open>
  The source starts from 100 and subtracts one product after the other from the mutable
  \<^verbatim>\<open>score\<close>, then clamps with \<^verbatim>\<open>Math.max(0, Math.min(100, score))\<close>.
\<close>

definition calculateHealthScore :: "metrics \<Rightarrow> int" where
  "calculateHealthScore m =
    (let score0 = 100;
         highCoupling = length (filter (\<lambda>c. score c = High) (coupling m));
         score1 = score0 - int highCoupling * 3;
         score2 = score1 - int (length (duplication m)) * 5;
         veryComplex = length (filter (\<lambda>c. fn_score c = VeryComplex) (complexity m));
         complex = length (filter (\<lambda>c. fn_score c = Complex) (complexity m));
         score3 = score2 - int veryComplex * 4;
         score4 = score3 - int complex * 2;
         score5 = score4 - int (length (circularDependencies m)) * 10
     in max 0 (min 100 score5))"

text \<open>The penalty table of the specification, one summand per finding.\<close>

definition coupling_penalty :: "CouplingMetric \<Rightarrow> int" where
  "coupling_penalty c = (if score c = High then 3 else 0)"

definition complexity_penalty :: "ComplexityMetric \<Rightarrow> int" where
  "complexity_penalty c =
    (if fn_score c = VeryComplex then 4 else if fn_score c = Complex then 2 else 0)"

definition total_penalty :: "metrics \<Rightarrow> int" where
  "total_penalty m =
     sum_list (map coupling_penalty (coupling m))
   + sum_list (map (\<lambda>d. 5) (duplication m))
   + sum_list (map complexity_penalty (complexity m))
   + sum_list (map (\<lambda>d. 10) (circularDependencies m))"

definition no_findings :: "metrics \<Rightarrow> bool" where
  "no_findings m \<longleftrightarrow>
     list_all (\<lambda>c. score c \<noteq> High) (coupling m) \<and> duplication m = [] \<and>
     list_all (\<lambda>c. fn_score c \<noteq> VeryComplex \<and> fn_score c \<noteq> Complex) (complexity m) \<and>
     circularDependencies m = []"

section \<open>String primitives of JavaScript\<close>

text \<open>
  \<^verbatim>\<open>s.startsWith(p)\<close>, \<^verbatim>\<open>s.includes(sub)\<close>, \<^verbatim>\<open>s.split("\n")\<close> and
  \<^verbatim>\<open>xs.join(sep)\<close>.
\<close>

definition startsWith :: "string \<Rightarrow> string \<Rightarrow> bool" where
  "startsWith s p \<longleftrightarrow> take (length p) s = p"

fun str_includes :: "string \<Rightarrow> string \<Rightarrow> bool" where
  "str_includes [] sub \<longleftrightarrow> sub = []"
| "str_includes (c # cs) sub \<longleftrightarrow> startsWith (c # cs) sub \<or> str_includes cs sub"

definition newline :: char where
  "newline = CHR 0x0A"

fun split_nl :: "string \<Rightarrow> string list" where
  "split_nl [] = [[]]"
| "split_nl (c # cs) =
     (if c = newline then [] # split_nl cs
      else (case split_nl cs of [] \<Rightarrow> [[c]] | l # ls \<Rightarrow> (c # l) # ls))"

fun join :: "string \<Rightarrow> string list \<Rightarrow> string" where
  "join sep [] = []"
| "join sep [x] = x"
| "join sep (x # y # ys) = x @ sep @ join sep (y # ys)"

section \<open>Regular expressions used by the complexity metrics\<close>

text \<open>
  A pattern is modelled by what it matches at one position: given the character before
  the position (if any) and the rest of the input, the length of the match there.
  \<^verbatim>\<open>\b\<close> next to a keyword holds where the neighbouring character is absent or is
  not a word character; \<^verbatim>\<open>\s\<close> is the white space of the Latin-1 range.
\<close>

type_synonym matcher = "char option \<Rightarrow> string \<Rightarrow> nat option"

definition is_word_char :: "char \<Rightarrow> bool" where
  "is_word_char c \<longleftrightarrow>
     c \<in> set ''abcdefghijklmnopqrstuvwxyzABCDEFGHIJKLMNOPQRSTUVWXYZ0123456789_''"

definition is_space :: "char \<Rightarrow> bool" where
  "is_space c \<longleftrightarrow> c \<in> set [CHR 0x09, CHR 0x0A, CHR 0x0B, CHR 0x0C, CHR 0x0D, CHR 0x20, CHR 0xA0]"

definition boundary_before :: "char option \<Rightarrow> bool" where
  "boundary_before prev = (case prev of None \<Rightarrow> True | Some p \<Rightarrow> \<not> is_word_char p)"

definition boundary_after :: "string \<Rightarrow> bool" where
  "boundary_after rest = (case rest of [] \<Rightarrow> True | c # _ \<Rightarrow> \<not> is_word_char c)"

text \<open>\<^verbatim>\<open>/\bkw\b/\<close> for a keyword made of word characters.\<close>

definition match_keyword :: "string \<Rightarrow> matcher" where
  "match_keyword kw prev rest =
     (if boundary_before prev \<and> startsWith rest kw \<and> boundary_after (drop (length kw) rest)
      then Some (length kw) else None)"

text \<open>\<^verbatim>\<open>/\belse\s+if\b/\<close>.\<close>

definition match_else_if :: matcher where
  "match_else_if prev rest =
     (let r = drop 4 rest; ws = takeWhile is_space r; r' = dropWhile is_space r
      in if boundary_before prev \<and> startsWith rest ''else'' \<and> ws \<noteq> [] \<and>
            startsWith r' ''if'' \<and> boundary_after (drop 2 r')
         then Some (4 + length ws + 2) else None)"

definition match_literal :: "string \<Rightarrow> matcher" where
  "match_literal lit prev rest = (if startsWith rest lit then Some (length lit) else None)"

text \<open>Alternation: the first alternative that matches at the position.\<close>

fun match_alt :: "matcher list \<Rightarrow> matcher" where
  "match_alt [] prev rest = None"
| "match_alt (m # ms) prev rest =
     (case m prev rest of Some k \<Rightarrow> Some k | None \<Rightarrow> match_alt ms prev rest)"

text \<open>
  \<^verbatim>\<open>(s.match(/re/g) || []).length\<close>: the matches are taken from left to right, the
  search resuming behind each match. The third argument counts the characters of the
  last match that are still to be skipped.
\<close>

fun count_matches :: "matcher \<Rightarrow> char option \<Rightarrow> nat \<Rightarrow> string \<Rightarrow> nat" where
  "count_matches m prev skip [] = 0"
| "count_matches m prev skip (c # cs) =
     (if 0 < skip then count_matches m (Some c) (skip - 1) cs
      else (case m prev (c # cs) of
              Some k \<Rightarrow> 1 + count_matches m (Some c) (k - 1) cs
            | None \<Rightarrow> count_matches m (Some c) 0 cs))"

definition match_count :: "matcher \<Rightarrow> string \<Rightarrow> nat" where
  "match_count m s = count_matches m None 0 s"

text \<open>\<^verbatim>\<open>/re/.test(s)\<close>: some position has a match.\<close>

definition re_test :: "matcher \<Rightarrow> string \<Rightarrow> bool" where
  "re_test m s \<longleftrightarrow> 0 < match_count m s"

section \<open>Coupling analyzer (calculateCoupling)\<close>

definition calculateCoupling :: "ComponentInfo list \<Rightarrow> CouplingMetric list" where
  "calculateCoupling components =
     map (\<lambda>component.
       let afferent = length (filter
               (\<lambda>c. list_ex (\<lambda>dep. str_includes dep (name component)) (dependencies c))
               components);
           efferent = length (filter (\<lambda>dep. startsWith dep ''.'') (dependencies component));
           total = afferent + efferent;
           inst = (if 0 < total then of_nat efferent / of_nat total else 0);
           sc = (if 7 / 10 < inst \<or> 10 < efferent then High
                 else if 1 / 2 < inst \<or> 5 < efferent then Moderate
                 else Good)
       in \<lparr>component = path component, afferentCoupling = afferent,
           efferentCoupling = efferent, instability = inst, score = sc\<rparr>)
       components"

text \<open>
  The reading of the specification's sentence on afferent coupling: the components at
  the other positions of the catalog that have a specifier containing the name.
\<close>

definition afferent_of_others :: "ComponentInfo list \<Rightarrow> nat \<Rightarrow> nat" where
  "afferent_of_others components i =
     length (filter
       (\<lambda>j. j \<noteq> i \<and> list_ex (\<lambda>dep. str_includes dep (name (components ! i)))
                           (dependencies (components ! j)))
       [0..<length components])"

section \<open>Complexity metrics (calculateCyclomaticComplexity, calculateCognitiveComplexity)\<close>

definition cyclomatic_patterns :: "matcher list" where
  "cyclomatic_patterns =
     [match_keyword ''if'', match_else_if, match_keyword ''for'', match_keyword ''while'',
      match_keyword ''case'', match_keyword ''catch'', match_literal ''&&'',
      match_literal ''||'', match_literal ''?'']"

definition calculateCyclomaticComplexity :: "string \<Rightarrow> int" where
  "calculateCyclomaticComplexity code =
     fold (\<lambda>pattern complexity. complexity + int (match_count pattern code))
       cyclomatic_patterns 1"

definition control_keyword :: matcher where
  "control_keyword =
     match_alt (map match_keyword [''if'', ''for'', ''while'', ''switch'', ''catch''])"

definition logical_operator :: matcher where
  "logical_operator = match_alt [match_literal ''&&'', match_literal ''||'']"

text \<open>
  One iteration of the loop over the lines; the state is the pair of the mutable
  variables \<^verbatim>\<open>complexity\<close> and \<^verbatim>\<open>nestingLevel\<close>.
\<close>

definition cognitive_step :: "string \<Rightarrow> int \<times> int \<Rightarrow> int \<times> int" where
  "cognitive_step line st =
     (let (complexity, nestingLevel) = st;
          nestingLevel = (if str_includes line ''{'' then nestingLevel + 1 else nestingLevel);
          nestingLevel = (if str_includes line ''}'' then max 0 (nestingLevel - 1) else nestingLevel);
          complexity = (if re_test control_keyword line then complexity + (1 + nestingLevel)
                        else complexity);
          logicalOps = int (match_count logical_operator line)
      in (complexity + logicalOps, nestingLevel))"

definition calculateCognitiveComplexity :: "string \<Rightarrow> int" where
  "calculateCognitiveComplexity code = fst (fold cognitive_step (split_nl code) (0, 0))"

text \<open>
  The scan as the specification words it, with the nesting depth moved once for each
  brace character of the line, in the order of the characters.
\<close>

definition brace_depth :: "int \<Rightarrow> string \<Rightarrow> int" where
  "brace_depth d line =
     fold (\<lambda>c d. if c = CHR ''{'' then d + 1 else if c = CHR ''}'' then max 0 (d - 1) else d)
       line d"

fun cognitive_per_brace :: "int \<Rightarrow> string list \<Rightarrow> int" where
  "cognitive_per_brace d [] = 0"
| "cognitive_per_brace d (line # rest) =
     (let d' = brace_depth d line
      in (if re_test control_keyword line then 1 + d' else 0)
         + int (match_count logical_operator line) + cognitive_per_brace d' rest)"

text \<open>
  The scan with the nesting depth moved once for each line: up when the line has an
  opening brace, then down (not below 0) when it has a closing brace.
\<close>

definition line_depth :: "int \<Rightarrow> string \<Rightarrow> int" where
  "line_depth d line =
     (let d1 = (if CHR ''{'' \<in> set line then d + 1 else d)
      in if CHR ''}'' \<in> set line then max 0 (d1 - 1) else d1)"

fun cognitive_per_line :: "int \<Rightarrow> string list \<Rightarrow> int" where
  "cognitive_per_line d [] = 0"
| "cognitive_per_line d (line # rest) =
     (let d' = line_depth d line
      in (if re_test control_keyword line then 1 + d' else 0)
         + int (match_count logical_operator line) + cognitive_per_line d' rest)"

section \<open>Cycle detector (buildDependencyGraph, detectCircularDependencies)\<close>

text \<open>\<^verbatim>\<open>dep.replace(/^\.\.?\//, "")\<close>: a leading \<^verbatim>\<open>./\<close> or \<^verbatim>\<open>../\<close> is removed.\<close>

definition strip_relative :: "string \<Rightarrow> string" where
  "strip_relative dep =
     (if startsWith dep ''./'' then drop 2 dep
      else if startsWith dep ''../'' then drop 3 dep
      else dep)"

text \<open>
  The first component of the catalog whose path contains the stripped specifier;
  \<open>None\<close> is the \<^verbatim>\<open>undefined\<close> that the source filters out.
\<close>

definition resolve :: "ComponentInfo list \<Rightarrow> string \<Rightarrow> string option" where
  "resolve components dep =
     map_option path (find (\<lambda>c. str_includes (path c) (strip_relative dep)) components)"

definition buildDependencyGraph :: "ComponentInfo list \<Rightarrow> (string \<rightharpoonup> string list)" where
  "buildDependencyGraph components =
     fold (\<lambda>component graph.
             graph(path component \<mapsto> List.map_filter (resolve components) (dependencies component)))
       components Map.empty"

text \<open>\<^verbatim>\<open>graph.get(node) || []\<close>.\<close>

definition neighbors :: "(string \<rightharpoonup> string list) \<Rightarrow> string \<Rightarrow> string list" where
  "neighbors graph node = (case graph node of None \<Rightarrow> [] | Some ns \<Rightarrow> ns)"

text \<open>
  The branch of \<^verbatim>\<open>findCycles\<close> that has found the node on the current path. The call
  \<^verbatim>\<open>cycle.sort()\<close> sorts the array \<^verbatim>\<open>cycle\<close> itself, by code units, before the array is
  joined into the key and before it is pushed; the arrays already stored were sorted the
  same way when they were pushed, so sorting them again for the comparison leaves them as
  they are.
\<close>

definition record_cycle ::
  "string \<Rightarrow> string list \<Rightarrow> CircularDependency list \<Rightarrow> CircularDependency list" where
  "record_cycle node path_stack cycles =
     (let found = dropWhile (\<lambda>p. p \<noteq> node) path_stack @ [node];
          found = sort found;
          cycleKey = join ''->'' found
      in if \<not> list_ex (\<lambda>c. join ''->'' (sort (cycle c)) = cycleKey) cycles
         then cycles @ [\<lparr>cycle = found,
                          severity = (if length found \<le> 3 then Error else Warning)\<rparr>]
         else cycles)"

text \<open>A loop whose body may fail to return: the first failure ends the loop.\<close>

fun fold_option :: "('a \<Rightarrow> 's \<Rightarrow> 's option) \<Rightarrow> 'a list \<Rightarrow> 's \<Rightarrow> 's option" where
  "fold_option f [] s = Some s"
| "fold_option f (x # xs) s = (case f x s of None \<Rightarrow> None | Some s' \<Rightarrow> fold_option f xs s')"

text \<open>
  The recursive search. The state is the set \<^verbatim>\<open>visited\<close>, which all calls of one
  search share, and the list \<^verbatim>\<open>cycles\<close>. The first argument bounds the depth of the
  recursion; \<open>None\<close> says that the bound was too small.
\<close>

primrec findCycles ::
  "nat \<Rightarrow> (string \<rightharpoonup> string list) \<Rightarrow> string \<Rightarrow> string list
     \<Rightarrow> string set \<times> CircularDependency list
     \<Rightarrow> (string set \<times> CircularDependency list) option" where
  "findCycles 0 graph node path_stack st = None"
| "findCycles (Suc depth) graph node path_stack st =
     (let (visited, cycles) = st
      in if node \<in> set path_stack then Some (visited, record_cycle node path_stack cycles)
         else if node \<in> visited then Some (visited, cycles)
         else fold_option (\<lambda>neighbor. findCycles depth graph neighbor (path_stack @ [node]))
                (neighbors graph node) (insert node visited, cycles))"

definition detectCircularDependencies ::
  "nat \<Rightarrow> ComponentInfo list \<Rightarrow> CircularDependency list option" where
  "detectCircularDependencies depth components =
     (let graph = buildDependencyGraph components
      in fold_option
           (\<lambda>component cycles.
              map_option snd (findCycles depth graph (path component) [] ({}, cycles)))
           components [])"

text \<open>A closed walk of the graph: the first entry comes back as the last, and each
  entry is followed by one of its neighbours.\<close>

definition closed_walk :: "(string \<rightharpoonup> string list) \<Rightarrow> string list \<Rightarrow> bool" where
  "closed_walk graph w \<longleftrightarrow>
     w \<noteq> [] \<and> hd w = last w \<and>
     list_all (\<lambda>(u, v). v \<in> set (neighbors graph u)) (zip w (tl w))"




section \<open>Similarity (src/utils/index.ts)\<close>

text \<open>
  \<^verbatim>\<open>costs[j] = v\<close> on a JavaScript array: an index below the length overwrites, the
  index equal to the length appends, a larger one leaves holes before the new entry.
\<close>

definition array_set :: "'a list \<Rightarrow> nat \<Rightarrow> 'a \<Rightarrow> 'a list" where
  "array_set xs j v =
     (if j < length xs then xs[j := v]
      else if j = length xs then xs @ [v]
      else xs @ replicate (j - length xs) undefined @ [v])"

text \<open>
  The body of the inner loop of \<^verbatim>\<open>levenshtein\<close> at the indices \<open>i\<close> and \<open>j\<close>; the state
  is the array \<^verbatim>\<open>costs\<close> and the variable \<^verbatim>\<open>lastValue\<close>.
\<close>

definition lev_step :: "string \<Rightarrow> string \<Rightarrow> nat \<Rightarrow> nat \<Rightarrow> nat list \<times> nat \<Rightarrow> nat list \<times> nat" where
  "lev_step s1 s2 i j st =
     (let (costs, lastValue) = st
      in if i = 0 then (array_set costs j j, lastValue)
         else if 0 < j then
           (let newValue = costs ! (j - 1);
                newValue = (if s1 ! (i - 1) \<noteq> s2 ! (j - 1)
                            then min (min newValue lastValue) (costs ! j) + 1
                            else newValue)
            in (array_set costs (j - 1) lastValue, newValue))
         else (costs, lastValue))"

text \<open>The body of the outer loop: one pass of \<open>j\<close> from 0 to the length of \<open>s2\<close>.\<close>

definition lev_row :: "string \<Rightarrow> string \<Rightarrow> nat \<Rightarrow> nat list \<Rightarrow> nat list" where
  "lev_row s1 s2 i costs =
     (let (costs, lastValue) = fold (lev_step s1 s2 i) [0..<Suc (length s2)] (costs, i)
      in if 0 < i then array_set costs (length s2) lastValue else costs)"

definition levenshtein :: "string \<Rightarrow> string \<Rightarrow> nat" where
  "levenshtein s1 s2 = fold (lev_row s1 s2) [0..<Suc (length s1)] [] ! length s2"

definition similarity :: "string \<Rightarrow> string \<Rightarrow> rat" where
  "similarity s1 s2 =
     (let longer = (if length s2 < length s1 then s1 else s2);
          shorter = (if length s2 < length s1 then s2 else s1)
      in if length longer = 0 then 1
         else (of_nat (length longer) - of_nat (levenshtein longer shorter))
              / of_nat (length longer))"

text \<open>
  The Levenshtein distance. \<open>edits xs ys n\<close> says that \<open>n\<close> single-character
  insertions, deletions and substitutions turn \<open>xs\<close> into \<open>ys\<close>; \<open>editDistance\<close>
  is the textbook recurrence for the least such \<open>n\<close>.
\<close>

inductive edits :: "'a list \<Rightarrow> 'a list \<Rightarrow> nat \<Rightarrow> bool" where
  finished: "edits [] [] 0"
| keep: "edits xs ys n \<Longrightarrow> edits (x # xs) (x # ys) n"
| substitute: "edits xs ys n \<Longrightarrow> edits (x # xs) (y # ys) (Suc n)"
| delete: "edits xs ys n \<Longrightarrow> edits (x # xs) ys (Suc n)"
| insert: "edits xs ys n \<Longrightarrow> edits xs (y # ys) (Suc n)"

fun editDistance :: "'a list \<Rightarrow> 'a list \<Rightarrow> nat" where
  "editDistance [] ys = length ys"
| "editDistance xs [] = length xs"
| "editDistance (x # xs) (y # ys) =
     min (min (editDistance xs (y # ys) + 1) (editDistance (x # xs) ys + 1))
         (editDistance xs ys + (if x = y then 0 else 1))"

text \<open>The entry of the distance matrix for the prefixes of lengths \<open>i\<close> and \<open>j\<close>.\<close>

definition prefix_distance :: "string \<Rightarrow> string \<Rightarrow> nat \<Rightarrow> nat \<Rightarrow> nat" where
  "prefix_distance s1 s2 i j = editDistance (take i s1) (take j s2)"

section \<open>Content cache and file access\<close>

text \<open>
  What the analyzer takes from outside the repository: \<^verbatim>\<open>readFile\<close> and \<^verbatim>\<open>path.join\<close> of
  the runtime, \<^verbatim>\<open>parse\<close> of the TypeScript parser, the clock behind
  \<^verbatim>\<open>formatTimestamp\<close>. A call that throws is \<open>None\<close>. The walk \<^verbatim>\<open>extractFunctions\<close> over
  the parser's tree is taken from outside as well, since the tree type is the parser's.
\<close>

record func_info =
  fn_name :: string
  fn_body :: string
  fn_lines :: nat

record 'ast env =
  readFile :: "string \<Rightarrow> string option"
  path_join :: "string \<Rightarrow> string \<Rightarrow> string"
  parse_ast :: "string \<Rightarrow> bool \<Rightarrow> 'ast option"
  extractFunctions :: "'ast \<Rightarrow> string \<Rightarrow> func_info list option"
  formatTimestamp :: string

text \<open>
  The two module-level maps \<^verbatim>\<open>fileCache\<close> and \<^verbatim>\<open>astCache\<close>. They are created when the
  module is loaded and are the state that every function below passes on.
\<close>

record 'ast caches =
  fileCache :: "string \<rightharpoonup> string"
  astCache :: "string \<rightharpoonup> 'ast"

definition empty_caches :: "'ast caches" where
  "empty_caches = \<lparr>fileCache = Map.empty, astCache = Map.empty\<rparr>"

definition clearAnalysisCache :: "'ast caches \<Rightarrow> 'ast caches" where
  "clearAnalysisCache st = st\<lparr>fileCache := Map.empty, astCache := Map.empty\<rparr>"

text \<open>
  \<^verbatim>\<open>!content\<close> holds for a missing entry and for the empty string, so an empty file is
  read again on every call; a failed read gives the empty string and stores nothing.
\<close>

definition getCachedFileContent :: "'ast env \<Rightarrow> string \<Rightarrow> 'ast caches \<Rightarrow> string \<times> 'ast caches" where
  "getCachedFileContent e filePath st =
     (let content = fileCache st filePath
      in if content = None \<or> content = Some []
         then (case readFile e filePath of
                 Some text \<Rightarrow> (text, st\<lparr>fileCache := (fileCache st)(filePath \<mapsto> text)\<rparr>)
               | None \<Rightarrow> ([], st))
         else (case content of Some text \<Rightarrow> (text, st) | None \<Rightarrow> ([], st)))"

section \<open>Duplication detector (hashCode, detectDuplication)\<close>

text \<open>
  \<^verbatim>\<open>hash = ((hash << 5) - hash) + char; hash = hash & hash\<close>: arithmetic on 32-bit
  integers with wrap-around, read as a signed number at the end.
\<close>

definition hashCode :: "string \<Rightarrow> int" where
  "hashCode str =
     sint (fold (\<lambda>c (hash :: 32 word). (push_bit 5 hash - hash) + of_nat (of_char c)) str 0)"

definition minLines :: nat where "minLines = 10"
definition minSimilarity :: rat where "minSimilarity = 85 / 100"
definition maxComparisons :: nat where "maxComparisons = 100000"
definition sizeTolerance :: rat where "sizeTolerance = 1 / 2"

definition suggestion_text :: string where
  "suggestion_text =
     ''Envisager d'' @ [CHR 0x27] @
     ''extraire le code commun dans un composant ou utilitaire partag'' @ [CHR 0xE9]"

text \<open>The filter that keeps the large files that are not tests.\<close>

definition is_candidate :: "ComponentInfo \<Rightarrow> bool" where
  "is_candidate c \<longleftrightarrow>
     int minLines \<le> linesOfCode c \<and> \<not> str_includes (path c) ''.test.'' \<and>
     \<not> str_includes (path c) ''.spec.''"

record component_content =
  cc_component :: ComponentInfo
  cc_content :: string
  cc_lines :: "string list"
  cc_hash :: int

definition make_content :: "ComponentInfo \<Rightarrow> string \<Rightarrow> component_content" where
  "make_content c content =
     \<lparr>cc_component = c, cc_content = content, cc_lines = split_nl content,
      cc_hash = hashCode content\<rparr>"

text \<open>
  The reads of \<^verbatim>\<open>Promise.all(largeComponents.map(...))\<close>, taken in catalog order. The
  callbacks run interleaved in the source; with a file system that answers the same
  for the same path they return the same list and leave the same cache.
\<close>

fun read_contents ::
  "'ast env \<Rightarrow> string \<Rightarrow> ComponentInfo list \<Rightarrow> 'ast caches
     \<Rightarrow> component_content list \<times> 'ast caches" where
  "read_contents e repoPath [] st = ([], st)"
| "read_contents e repoPath (c # cs) st =
     (let fullPath = path_join e repoPath (path c);
          (content, st1) = getCachedFileContent e fullPath st;
          (rest, st2) = read_contents e repoPath cs st1
      in (make_content c content # rest, st2))"

text \<open>The body of the inner loop behind the check of the comparison cap.\<close>

definition compare_pair ::
  "component_content \<Rightarrow> component_content \<Rightarrow> DuplicationInstance list
     \<Rightarrow> DuplicationInstance list" where
  "compare_pair a b instances =
     (let la = length (cc_lines a); lb = length (cc_lines b)
      in if la < minLines \<or> lb < minLines then instances
         else if of_nat (min la lb) / of_nat (max la lb) < sizeTolerance then instances
         else if 100000 < \<bar>cc_hash a - cc_hash b\<bar> then instances
         else (let sim = similarity (cc_content a) (cc_content b)
               in if minSimilarity \<le> sim
                  then instances @
                    [\<lparr>files = [path (cc_component a), path (cc_component b)],
                      lines = min la lb, similarity_of = sim,
                      snippet = join [newline] (take 5 (cc_lines a)) @ [newline] @ ''...'',
                      suggestion = suggestion_text\<rparr>]
                  else instances))"

text \<open>
  The loop over \<open>j\<close> for a fixed \<open>i\<close>: \<open>Inl\<close> is the early \<^verbatim>\<open>return instances\<close> at the
  cap, \<open>Inr\<close> the state with which the loop over \<open>i\<close> goes on.
\<close>

fun inner_loop ::
  "component_content \<Rightarrow> component_content list \<Rightarrow> nat \<times> DuplicationInstance list
     \<Rightarrow> DuplicationInstance list + nat \<times> DuplicationInstance list" where
  "inner_loop a [] st = Inr st"
| "inner_loop a (b # bs) st =
     (let (comparisons, instances) = st; comparisons = comparisons + 1
      in if maxComparisons \<le> comparisons then Inl instances
         else inner_loop a bs (comparisons, compare_pair a b instances))"

fun outer_loop ::
  "component_content list \<Rightarrow> nat \<times> DuplicationInstance list \<Rightarrow> DuplicationInstance list" where
  "outer_loop [] st = snd st"
| "outer_loop (a # rest) st =
     (case inner_loop a rest st of
        Inl instances \<Rightarrow> instances
      | Inr st' \<Rightarrow> outer_loop rest st')"

definition detectDuplication ::
  "'ast env \<Rightarrow> string \<Rightarrow> ComponentInfo list \<Rightarrow> 'ast caches
     \<Rightarrow> DuplicationInstance list \<times> 'ast caches" where
  "detectDuplication e repoPath components st =
     (let largeComponents = filter is_candidate components;
          (componentContents, st') = read_contents e repoPath largeComponents st
      in (outer_loop componentContents (0, []), st'))"

section \<open>Complexity analyzer (analyzeComponentComplexity, calculateComplexity)\<close>

definition endsWith :: "string \<Rightarrow> string \<Rightarrow> bool" where
  "endsWith s suf \<longleftrightarrow> length suf \<le> length s \<and> drop (length s - length suf) s = suf"

definition complexity_band :: "int \<Rightarrow> int \<Rightarrow> complexity_score" where
  "complexity_band cyclomatic cognitive =
     (if 20 < cyclomatic \<or> 15 < cognitive then VeryComplex
      else if 10 < cyclomatic \<or> 7 < cognitive then Complex
      else if 5 < cyclomatic \<or> 3 < cognitive then ModerateC
      else Simple)"

definition function_metric :: "ComponentInfo \<Rightarrow> func_info \<Rightarrow> ComplexityMetric" where
  "function_metric this_component func =
     (let cyclomatic = calculateCyclomaticComplexity (fn_body func);
          cognitive = calculateCognitiveComplexity (fn_body func)
      in \<lparr>file_path = path this_component, function_name = fn_name func,
          cyclomaticComplexity = cyclomatic, cognitiveComplexity = cognitive,
          fn_linesOfCode = fn_lines func, fn_score = complexity_band cyclomatic cognitive\<rparr>)"

text \<open>
  The \<^verbatim>\<open>try\<close> block: an exception of the parser or of the walk leaves \<^verbatim>\<open>metrics\<close>
  empty; a tree parsed before the exception stays in \<^verbatim>\<open>astCache\<close>.
\<close>

definition analyzeComponentComplexity ::
  "'ast env \<Rightarrow> string \<Rightarrow> ComponentInfo \<Rightarrow> 'ast caches \<Rightarrow> ComplexityMetric list \<times> 'ast caches" where
  "analyzeComponentComplexity e repoPath this_component st =
     (let fullPath = path_join e repoPath (path this_component);
          (content, st1) = getCachedFileContent e fullPath st
      in if content = [] then ([], st1)
         else (case astCache st1 fullPath of
                 Some ast \<Rightarrow>
                   (case extractFunctions e ast content of
                      None \<Rightarrow> ([], st1)
                    | Some functions \<Rightarrow> (map (function_metric this_component) functions, st1))
               | None \<Rightarrow>
                   (case parse_ast e content (endsWith (path this_component) ''x'') of
                      None \<Rightarrow> ([], st1)
                    | Some ast \<Rightarrow>
                        (let st2 = st1\<lparr>astCache := (astCache st1)(fullPath \<mapsto> ast)\<rparr>
                         in case extractFunctions e ast content of
                              None \<Rightarrow> ([], st2)
                            | Some functions \<Rightarrow>
                                (map (function_metric this_component) functions, st2)))))"

text \<open>One batch: \<^verbatim>\<open>Promise.all(batch.map(...))\<close>, in catalog order.\<close>

fun analyze_batch ::
  "'ast env \<Rightarrow> string \<Rightarrow> ComponentInfo list \<Rightarrow> 'ast caches
     \<Rightarrow> ComplexityMetric list list \<times> 'ast caches" where
  "analyze_batch e repoPath [] st = ([], st)"
| "analyze_batch e repoPath (c # cs) st =
     (let (m, st1) = analyzeComponentComplexity e repoPath c st;
          (ms, st2) = analyze_batch e repoPath cs st1
      in (m # ms, st2))"

definition batchSize :: nat where "batchSize = 20"

text \<open>The loop \<^verbatim>\<open>for (i = 0; i < components.length; i += batchSize)\<close> on the rest of the
  catalog from \<open>i\<close> on.\<close>

function calculateComplexity ::
  "'ast env \<Rightarrow> string \<Rightarrow> ComponentInfo list \<Rightarrow> 'ast caches
     \<Rightarrow> ComplexityMetric list \<times> 'ast caches" where
  "calculateComplexity e repoPath components st =
     (if components = [] then ([], st)
      else (let (batchMetrics, st1) = analyze_batch e repoPath (take batchSize components) st;
                (rest, st2) = calculateComplexity e repoPath (drop batchSize components) st1
            in (concat batchMetrics @ rest, st2)))"
  by pat_completeness auto
termination
  by (relation "measure (\<lambda>(e, repoPath, components, st). length components)")
     (auto simp: batchSize_def)

declare calculateComplexity.simps [simp del]

section \<open>The analysis (analyzeArchitecture)\<close>

record ArchitectureAnalysis = metrics +
  analyzedAt :: string
  healthScore :: int

text \<open>
  The depth bound handed to the cycle detector exceeds the number of components, which
  is enough for it to return. The function neither empties the caches before its first
  read nor after its last: it starts from the caches as the last call left them.
\<close>

definition analyzeArchitecture ::
  "'ast env \<Rightarrow> ComponentInfo list \<Rightarrow> string \<Rightarrow> 'ast caches
     \<Rightarrow> ArchitectureAnalysis option \<times> 'ast caches" where
  "analyzeArchitecture e components repoPath st =
     (let coupling_metrics = calculateCoupling components;
          (duplication_instances, st1) = detectDuplication e repoPath components st;
          (complexity_metrics, st2) = calculateComplexity e repoPath components st1
      in ((case detectCircularDependencies (Suc (length components)) components of
            None \<Rightarrow> None
          | Some cycles \<Rightarrow>
              Some \<lparr>coupling = coupling_metrics, duplication = duplication_instances,
                    complexity = complexity_metrics, circularDependencies = cycles,
                    analyzedAt = formatTimestamp e,
                    healthScore = calculateHealthScore
                      \<lparr>coupling = coupling_metrics, duplication = duplication_instances,
                       complexity = complexity_metrics, circularDependencies = cycles\<rparr>\<rparr>),
          st2))"

section \<open>Notions used to state the properties of the analysis\<close>

text \<open>The text that a read of the path returns in a given state of the cache.\<close>

definition cached_content :: "'ast env \<Rightarrow> 'ast caches \<Rightarrow> string \<Rightarrow> string" where
  "cached_content e st filePath = fst (getCachedFileContent e filePath st)"

text \<open>The cache holds no text for the path: no entry, or the empty string.\<close>

definition no_cached_text :: "'ast caches \<Rightarrow> string \<Rightarrow> bool" where
  "no_cached_text st filePath \<longleftrightarrow>
     fileCache st filePath = None \<or> fileCache st filePath = Some []"

text \<open>The pairs \<open>(xs ! i, xs ! j)\<close> with \<open>i < j\<close>, in the order of the two nested loops.\<close>

fun all_pairs :: "'a list \<Rightarrow> ('a \<times> 'a) list" where
  "all_pairs [] = []"
| "all_pairs (x # xs) = map (Pair x) xs @ all_pairs xs"

text \<open>The instances of the result that are about the two given paths, in either order.\<close>

definition instances_for :: "string \<Rightarrow> string \<Rightarrow> DuplicationInstance list \<Rightarrow> DuplicationInstance list" where
  "instances_for p q instances = filter (\<lambda>inst. set (files inst) = {p, q}) instances"

section \<open>Example inputs\<close>

text \<open>A component that imports its own style sheet, as \<^verbatim>\<open>Button.tsx\<close> commonly does.\<close>

definition example_button :: ComponentInfo where
  "example_button =
     \<lparr>name = ''Button'', path = ''src/Button.tsx'', ctype = Component,
      imports_list = [''react'', ''./Button.styles''], exports_list = [''Button''],
      dependencies = [''./Button.styles''], linesOfCode = 20\<rparr>"

definition example_icon :: ComponentInfo where
  "example_icon =
     \<lparr>name = ''Icon'', path = ''src/Icon.tsx'', ctype = Component,
      imports_list = [''./Button''], exports_list = [''Icon''],
      dependencies = [''./Button''], linesOfCode = 12\<rparr>"


definition example_pair :: "ComponentInfo list" where
  "example_pair =
     [\<lparr>name = ''a'', path = ''a.ts'', ctype = Utility, imports_list = [''./b''],
        exports_list = [], dependencies = [''./b''], linesOfCode = 3\<rparr>,
      \<lparr>name = ''b'', path = ''b.ts'', ctype = Utility, imports_list = [''./a''],
        exports_list = [], dependencies = [''./a''], linesOfCode = 3\<rparr>]"

text \<open>
  Two files with the same ten lines under the root \<^verbatim>\<open>repo\<close>; a file system that has
  both, and one from which \<^verbatim>\<open>b.ts\<close> has been deleted. The parser is one that rejects
  every file.
\<close>

definition example_text :: string where
  "example_text = ''a\<newline>b\<newline>c\<newline>d\<newline>e\<newline>f\<newline>g\<newline>h\<newline>i\<newline>j''"

definition example_twin_a :: ComponentInfo where
  "example_twin_a =
     \<lparr>name = ''a'', path = ''a.ts'', ctype = Utility, imports_list = [],
      exports_list = [], dependencies = [], linesOfCode = 10\<rparr>"

definition example_twin_b :: ComponentInfo where
  "example_twin_b =
     \<lparr>name = ''b'', path = ''b.ts'', ctype = Utility, imports_list = [],
      exports_list = [], dependencies = [], linesOfCode = 10\<rparr>"

definition example_twins :: "ComponentInfo list" where
  "example_twins = [example_twin_a, example_twin_b]"

text \<open>
  The two files behind 448 other candidates whose files are missing: 450 candidates make
  101025 pairs, and the pair of the two files is the last one.
\<close>

definition example_filler :: "nat \<Rightarrow> ComponentInfo" where
  "example_filler i =
     \<lparr>name = ''x'', path = replicate (Suc i) CHR ''x'', ctype = Utility, imports_list = [],
      exports_list = [], dependencies = [], linesOfCode = 10\<rparr>"

definition example_crowd :: "ComponentInfo list" where
  "example_crowd = map example_filler [0..<448] @ [example_twin_a, example_twin_b]"

definition example_env :: "unit env" where
  "example_env =
     \<lparr>readFile = (\<lambda>p. if p = ''repo/a.ts'' \<or> p = ''repo/b.ts'' then Some example_text else None),
      path_join = (\<lambda>root p. root @ ''/'' @ p),
      parse_ast = (\<lambda>content jsx. None),
      extractFunctions = (\<lambda>ast content. None),
      formatTimestamp = ''2024-01-01T00:00:00.000Z''\<rparr>"

definition example_env_deleted :: "unit env" where
  "example_env_deleted =
     example_env\<lparr>readFile := (\<lambda>p. if p = ''repo/a.ts'' then Some example_text else None)\<rparr>"

text \<open>A cache as an earlier invocation with a working parser leaves it.\<close>

definition example_caches :: "unit caches" where
  "example_caches =
     \<lparr>fileCache = [''repo/b.ts'' \<mapsto> example_text], astCache = [''repo/b.ts'' \<mapsto> ()]\<rparr>"

text \<open>
  The ring of three in a larger catalog, where its first component also imports one of
  two further components that import each other; a catalog in which each
  component of the ring first imports a component outside the ring that leads on to the
  next one; and a catalog with file names that contain the separator of the duplicate
  key, in which the component \<^verbatim>\<open>x\<close> and three others import each other.
\<close>

definition example_unit :: "string \<Rightarrow> string list \<Rightarrow> ComponentInfo" where
  "example_unit p deps =
     \<lparr>name = p, path = p, ctype = Utility, imports_list = deps, exports_list = [],
      dependencies = deps, linesOfCode = 3\<rparr>"

definition example_ring_and_more :: "ComponentInfo list" where
  "example_ring_and_more =
     [example_unit ''a.ts'' [''./b'', ''./d''], example_unit ''b.ts'' [''./c''],
      example_unit ''c.ts'' [''./a''], example_unit ''d.ts'' [''./e''],
      example_unit ''e.ts'' [''./d'']]"

definition example_detours :: "ComponentInfo list" where
  "example_detours =
     [example_unit ''a.ts'' [''./p'', ''./b''], example_unit ''b.ts'' [''./q'', ''./c''],
      example_unit ''c.ts'' [''./r'', ''./a''], example_unit ''p.ts'' [''./b''],
      example_unit ''q.ts'' [''./c''], example_unit ''r.ts'' [''./a'']]"

definition example_arrows :: "ComponentInfo list" where
  "example_arrows =
     [example_unit ''x'' [''./x->x->y->z'', ''./y->y->z'', ''./y->z->z''],
      example_unit ''x->x'' [''./y''], example_unit ''y'' [''./z''],
      example_unit ''z'' [''./x->x''],
      example_unit ''x->x->y->z'' [''./x''], example_unit ''y->y->z'' [''./x''],
      example_unit ''y->z->z'' [''./x'']]"

chapter \<open>Properties\<close>

section \<open>Health score\<close>

lemma sum_coupling_penalty:
  "sum_list (map coupling_penalty cs) = int (length (filter (\<lambda>c. score c = High) cs)) * 3"
  by (induction cs) (simp_all add: coupling_penalty_def)

lemma sum_complexity_penalty:
  "sum_list (map complexity_penalty cs) =
     int (length (filter (\<lambda>c. fn_score c = VeryComplex) cs)) * 4
   + int (length (filter (\<lambda>c. fn_score c = Complex) cs)) * 2"
  by (induction cs) (simp_all add: complexity_penalty_def)

lemma sum_const_penalty: "sum_list (map (\<lambda>d. k) xs) = int (length xs) * (k::int)"
  by (induction xs) (simp_all add: algebra_simps)

lemma calculateHealthScore_penalty:
  "calculateHealthScore m = max 0 (min 100 (100 - total_penalty m))"
  by (simp add: calculateHealthScore_def total_penalty_def Let_def sum_coupling_penalty
      sum_complexity_penalty sum_const_penalty)

lemma total_penalty_nonneg: "0 \<le> total_penalty m"
  by (simp add: total_penalty_def sum_coupling_penalty sum_complexity_penalty
      sum_const_penalty)

lemma no_findings_penalty: "no_findings m \<Longrightarrow> total_penalty m = 0"
proof -
  assume nf: "no_findings m"
  have a: "filter (\<lambda>c. score c = High) (coupling m) = []"
    using nf by (auto simp: no_findings_def list_all_iff filter_empty_conv)
  have b: "filter (\<lambda>c. fn_score c = VeryComplex) (complexity m) = []"
    using nf by (auto simp: no_findings_def list_all_iff filter_empty_conv)
  have c: "filter (\<lambda>c. fn_score c = Complex) (complexity m) = []"
    using nf by (auto simp: no_findings_def list_all_iff filter_empty_conv)
  show ?thesis
    using nf a b c
    by (simp add: total_penalty_def sum_coupling_penalty sum_complexity_penalty
        no_findings_def)
qed

text \<open>
  C3. For every input the health score is 100 minus 3 per high-coupling component, minus 5
  per duplication instance, minus 4 per very-complex function, minus 2 per complex
  function, minus 10 per circular-dependency entry, clamped to the interval from 0 to 100;
  it lies in that interval, and it is 100 when there is no finding of any kind.
\<close>

theorem calculateHealthScore_formula:
  "calculateHealthScore m = max 0 (min 100 (100 - total_penalty m)) \<and>
   0 \<le> calculateHealthScore m \<and> calculateHealthScore m \<le> 100 \<and>
   (no_findings m \<longrightarrow> calculateHealthScore m = 100)"
  using no_findings_penalty [of m]
  by (auto simp: calculateHealthScore_penalty)

theorem calculateHealthScore_formula_witness:
  "no_findings \<lparr>coupling = [\<lparr>component = ''a.ts'', afferentCoupling = 0, efferentCoupling = 0,
        instability = 0, score = Good\<rparr>],
      duplication = [], complexity = [], circularDependencies = []\<rparr> \<and>
   calculateHealthScore \<lparr>coupling = [\<lparr>component = ''a.ts'', afferentCoupling = 0,
        efferentCoupling = 0, instability = 0, score = Good\<rparr>],
      duplication = [], complexity = [], circularDependencies = []\<rparr> = 100"
  using calculateHealthScore_formula [of "\<lparr>coupling = [\<lparr>component = ''a.ts'',
        afferentCoupling = 0, efferentCoupling = 0, instability = 0, score = Good\<rparr>],
      duplication = [], complexity = [], circularDependencies = []\<rparr>"]
  by (simp add: no_findings_def)

lemma total_penalty_append_coupling:
  "total_penalty (m\<lparr>coupling := coupling m @ [c]\<rparr>) = total_penalty m + coupling_penalty c"
  by (simp add: total_penalty_def)

lemma total_penalty_append_duplication:
  "total_penalty (m\<lparr>duplication := duplication m @ [d]\<rparr>) = total_penalty m + 5"
  by (simp add: total_penalty_def)

lemma total_penalty_append_complexity:
  "total_penalty (m\<lparr>complexity := complexity m @ [f]\<rparr>) = total_penalty m + complexity_penalty f"
  by (simp add: total_penalty_def)

lemma total_penalty_append_circular:
  "total_penalty (m\<lparr>circularDependencies := circularDependencies m @ [k]\<rparr>) = total_penalty m + 10"
  by (simp add: total_penalty_def)

lemma clamp_antimono: "p \<le> (q::int) \<Longrightarrow> max 0 (min 100 (100 - q)) \<le> max 0 (min 100 (100 - p))"
  by auto

text \<open>
  C10. The health score never increases when one more finding is appended to any of the
  four input lists. This holds for every appended entry, so in particular for a
  high-coupling metric, a duplication instance, a complex or very-complex function and a
  circular-dependency entry.
\<close>

theorem calculateHealthScore_monotone:
  "calculateHealthScore (m\<lparr>coupling := coupling m @ [c]\<rparr>) \<le> calculateHealthScore m \<and>
   calculateHealthScore (m\<lparr>duplication := duplication m @ [d]\<rparr>) \<le> calculateHealthScore m \<and>
   calculateHealthScore (m\<lparr>complexity := complexity m @ [f]\<rparr>) \<le> calculateHealthScore m \<and>
   calculateHealthScore (m\<lparr>circularDependencies := circularDependencies m @ [k]\<rparr>)
     \<le> calculateHealthScore m"
proof -
  have c: "0 \<le> coupling_penalty c" by (simp add: coupling_penalty_def)
  have f: "0 \<le> complexity_penalty f" by (simp add: complexity_penalty_def)
  show ?thesis
    unfolding calculateHealthScore_penalty total_penalty_append_coupling
      total_penalty_append_duplication total_penalty_append_complexity
      total_penalty_append_circular
    using c f by (intro conjI clamp_antimono) simp_all
qed

section \<open>String primitives\<close>



lemma startsWith_iff: "startsWith s p \<longleftrightarrow> (\<exists>suf. s = p @ suf)"
proof
  assume "startsWith s p"
  then have "s = p @ drop (length p) s"
    by (metis startsWith_def append_take_drop_id)
  then show "\<exists>suf. s = p @ suf" ..
next
  assume "\<exists>suf. s = p @ suf"
  then show "startsWith s p" by (auto simp: startsWith_def)
qed

lemma str_includes_iff: "str_includes s sub \<longleftrightarrow> (\<exists>pre suf. s = pre @ sub @ suf)"
proof (induction s)
  case Nil
  show ?case by auto
next
  case (Cons c cs)
  show ?case
  proof
    assume "str_includes (c # cs) sub"
    then consider "startsWith (c # cs) sub" | "str_includes cs sub" by auto
    then show "\<exists>pre suf. c # cs = pre @ sub @ suf"
    proof cases
      case 1
      then obtain suf where "c # cs = sub @ suf" by (auto simp: startsWith_iff)
      then have "c # cs = [] @ sub @ suf" by simp
      then show ?thesis by blast
    next
      case 2
      then obtain pre suf where "cs = pre @ sub @ suf" using Cons.IH by blast
      then have "c # cs = (c # pre) @ sub @ suf" by simp
      then show ?thesis by blast
    qed
  next
    assume "\<exists>pre suf. c # cs = pre @ sub @ suf"
    then obtain pre suf where eq: "c # cs = pre @ sub @ suf" by blast
    show "str_includes (c # cs) sub"
    proof (cases pre)
      case Nil
      with eq have "startsWith (c # cs) sub" by (auto simp: startsWith_iff)
      then show ?thesis by simp
    next
      case (Cons p pre')
      with eq have "cs = pre' @ sub @ suf" by simp
      then have "str_includes cs sub" using Cons.IH by blast
      then show ?thesis by simp
    qed
  qed
qed

section \<open>Coupling\<close>

lemma card_split_position:
  assumes "i < (n::nat)"
  shows "card {j. j < n \<and> P j} = card {j. j < n \<and> j \<noteq> i \<and> P j} + (if P i then 1 else 0)"
proof (cases "P i")
  case True
  have "{j. j < n \<and> P j} = insert i {j. j < n \<and> j \<noteq> i \<and> P j}"
    using assms True by auto
  moreover have "finite {j. j < n \<and> j \<noteq> i \<and> P j}" by simp
  moreover have "i \<notin> {j. j < n \<and> j \<noteq> i \<and> P j}" by simp
  ultimately show ?thesis using True by (simp del: insert_iff)
next
  case False
  then have "{j. j < n \<and> P j} = {j. j < n \<and> j \<noteq> i \<and> P j}" by auto
  then show ?thesis using False by simp
qed

lemma length_filter_upt: "length (filter P [0..<n]) = card {j. j < n \<and> P j}"
proof -
  have "{i. i < n \<and> P ([0..<n] ! i)} = {j. j < n \<and> P j}" by auto
  then show ?thesis by (simp add: length_filter_conv_card)
qed

text \<open>
  C6, as the code has it. For the component at position \<open>i\<close> of the catalog, the afferent
  coupling is the number of catalog positions, the component's own included, whose
  dependency list has a specifier containing the component's name as a substring: it
  exceeds the count over the other positions by one exactly when a specifier of the
  component itself contains its name. The efferent coupling is the number of the
  component's specifiers that begin with a dot.
\<close>

theorem calculateCoupling_counts:
  assumes "i < length components"
  shows "afferentCoupling (calculateCoupling components ! i) =
           card {j. j < length components \<and>
                    (\<exists>dep \<in> set (dependencies (components ! j)).
                       \<exists>pre suf. dep = pre @ name (components ! i) @ suf)}
       \<and> afferentCoupling (calculateCoupling components ! i) =
           afferent_of_others components i +
           (if \<exists>dep \<in> set (dependencies (components ! i)).
                 \<exists>pre suf. dep = pre @ name (components ! i) @ suf then 1 else 0)
       \<and> efferentCoupling (calculateCoupling components ! i) =
           length (filter (\<lambda>dep. \<exists>rest. dep = CHR ''.'' # rest) (dependencies (components ! i)))"
proof -
  let ?P = "\<lambda>c. list_ex (\<lambda>dep. str_includes dep (name (components ! i))) (dependencies c)"
  let ?Q = "\<lambda>c. \<exists>dep \<in> set (dependencies c). \<exists>pre suf. dep = pre @ name (components ! i) @ suf"
  have PQ: "?P c = ?Q c" for c
    by (simp add: list_ex_iff str_includes_iff)
  have "calculateCoupling components ! i =
        (\<lambda>component.
       let afferent = length (filter
               (\<lambda>c. list_ex (\<lambda>dep. str_includes dep (name component)) (dependencies c))
               components);
           efferent = length (filter (\<lambda>dep. startsWith dep ''.'') (dependencies component));
           total = afferent + efferent;
           inst = (if 0 < total then of_nat efferent / of_nat total else 0);
           sc = (if 7 / 10 < inst \<or> 10 < efferent then High
                 else if 1 / 2 < inst \<or> 5 < efferent then Moderate
                 else Good)
       in \<lparr>component = path component, afferentCoupling = afferent,
           efferentCoupling = efferent, instability = inst, score = sc\<rparr>) (components ! i)"
    unfolding calculateCoupling_def using assms by (rule nth_map)
  then have aff: "afferentCoupling (calculateCoupling components ! i) = length (filter ?P components)"
    and eff: "efferentCoupling (calculateCoupling components ! i) =
       length (filter (\<lambda>dep. startsWith dep ''.'') (dependencies (components ! i)))"
    by (simp_all add: Let_def)
  have one: "afferentCoupling (calculateCoupling components ! i) =
        card {j. j < length components \<and> ?Q (components ! j)}"
    unfolding aff length_filter_conv_card PQ ..
  have "afferent_of_others components i =
        card {j. j < length components \<and> j \<noteq> i \<and> ?Q (components ! j)}"
    unfolding afferent_of_others_def length_filter_upt PQ ..
  then have two: "afferentCoupling (calculateCoupling components ! i) =
        afferent_of_others components i + (if ?Q (components ! i) then 1 else 0)"
    using card_split_position [OF assms, of "\<lambda>j. ?Q (components ! j)"] one by simp
  have sw: "startsWith dep ''.'' \<longleftrightarrow> (\<exists>rest. dep = CHR ''.'' # rest)" for dep
    by (simp add: startsWith_iff)
  have three: "efferentCoupling (calculateCoupling components ! i) =
        length (filter (\<lambda>dep. \<exists>rest. dep = CHR ''.'' # rest) (dependencies (components ! i)))"
    unfolding eff sw ..
  show ?thesis using one two three by blast
qed

theorem calculateCoupling_counts_witness:
  "0 < length [example_button, example_icon] \<and>
   afferentCoupling (calculateCoupling [example_button, example_icon] ! 0) = 2 \<and>
   afferent_of_others [example_button, example_icon] 0 = 1 \<and>
   efferentCoupling (calculateCoupling [example_button, example_icon] ! 0) = 1 \<and>
   (\<exists>dep \<in> set (dependencies ([example_button, example_icon] ! 0)).
      \<exists>pre suf. dep = pre @ name ([example_button, example_icon] ! 0) @ suf)"
proof -
  have h: "0 < length [example_button, example_icon]" by simp
  have a: "afferentCoupling (calculateCoupling [example_button, example_icon] ! 0) = 2"
    by code_simp
  have o: "afferent_of_others [example_button, example_icon] 0 = 1"
    by code_simp
  have e: "efferentCoupling (calculateCoupling [example_button, example_icon] ! 0) = 1"
    by code_simp
  have "(if \<exists>dep \<in> set (dependencies ([example_button, example_icon] ! 0)).
      \<exists>pre suf. dep = pre @ name ([example_button, example_icon] ! 0) @ suf then 1 else 0)
      = (1::nat)"
    using calculateCoupling_counts [OF h] unfolding a o by linarith
  then have "\<exists>dep \<in> set (dependencies ([example_button, example_icon] ! 0)).
      \<exists>pre suf. dep = pre @ name ([example_button, example_icon] ! 0) @ suf"
    by (metis zero_neq_one)
  then show ?thesis using h a o e by blast
qed

text \<open>
  C6, as the specification states it, fails for a component one of whose own specifiers
  contains its name: the code counts the component itself.
\<close>

theorem afferent_counts_self:
  "afferentCoupling (calculateCoupling [example_button] ! 0) \<noteq> afferent_of_others [example_button] 0"
  by code_simp

section \<open>Cognitive complexity\<close>

lemma str_includes_char: "str_includes s [c] \<longleftrightarrow> c \<in> set s"
  by (induction s) (auto simp: startsWith_def)

lemma cognitive_step_line_depth:
  "cognitive_step line (k, d) =
     (k + (if re_test control_keyword line then 1 + line_depth d line else 0)
        + int (match_count logical_operator line), line_depth d line)"
  by (simp add: cognitive_step_def line_depth_def Let_def str_includes_char)

lemma fold_cognitive_step:
  "fst (fold cognitive_step ls (k, d)) = k + cognitive_per_line d ls"
proof (induction ls arbitrary: k d)
  case Nil
  show ?case by simp
next
  case (Cons l ls)
  have "fst (fold cognitive_step (l # ls) (k, d)) =
        fst (fold cognitive_step ls (cognitive_step l (k, d)))" by simp
  also have "\<dots> = k + (if re_test control_keyword l then 1 + line_depth d l else 0)
        + int (match_count logical_operator l) + cognitive_per_line (line_depth d l) ls"
    unfolding cognitive_step_line_depth by (rule Cons.IH)
  also have "\<dots> = k + cognitive_per_line d (l # ls)"
    by (simp add: Let_def)
  finally show ?case .
qed

text \<open>
  C7, as the code has it. The cognitive complexity of a function body is the result of
  the scan over its lines in which the nesting depth goes up by one for each line that
  contains an opening brace and then down by one, not below 0, for each line that
  contains a closing brace, however many braces the line has; a line with a control
  keyword adds 1 plus the depth reached after the line's braces, and each logical
  operator on the line adds 1.
\<close>

theorem calculateCognitiveComplexity_per_line:
  "calculateCognitiveComplexity code = cognitive_per_line 0 (split_nl code)"
  by (simp add: calculateCognitiveComplexity_def fold_cognitive_step)

text \<open>
  C7, as the specification states it, fails on a line with two opening braces: the
  code raises the depth once, the count for each brace raises it twice.
\<close>

theorem cognitive_not_per_brace:
  "calculateCognitiveComplexity ''{{\<newline>if'' \<noteq> cognitive_per_brace 0 (split_nl ''{{\<newline>if'')"
  by code_simp

section \<open>Levenshtein distance\<close>

lemma editDistance_Nil2: "editDistance xs [] = length xs"
  by (cases xs) simp_all

lemma edits_insert_all: "edits [] ys (length ys)"
  by (induction ys) (auto intro: edits.intros)

lemma edits_delete_all: "edits xs [] (length xs)"
  by (induction xs) (auto intro: edits.intros)

lemma edits_editDistance: "edits xs ys (editDistance xs ys)"
proof (induction xs ys rule: editDistance.induct)
  case (1 ys)
  show ?case by (simp add: edits_insert_all)
next
  case (2 x xs)
  show ?case using edits_delete_all [of "x # xs"] by simp
next
  case (3 x xs y ys)
  let ?d = "editDistance xs (y # ys) + 1"
  let ?i = "editDistance (x # xs) ys + 1"
  let ?s = "editDistance xs ys + (if x = y then 0 else 1)"
  have d: "edits (x # xs) (y # ys) ?d" using "3.IH"(1) by (auto intro: edits.delete)
  have i: "edits (x # xs) (y # ys) ?i" using "3.IH"(2) by (auto intro: edits.insert)
  have s: "edits (x # xs) (y # ys) ?s" using "3.IH"(3) by (auto intro: edits.keep edits.substitute)
  have "editDistance (x # xs) (y # ys) = ?d \<or> editDistance (x # xs) (y # ys) = ?i
      \<or> editDistance (x # xs) (y # ys) = ?s"
    by (simp add: min_def)
  then show ?case using d i s by (elim disjE) simp_all
qed

lemma editDistance_le: "edits xs ys n \<Longrightarrow> editDistance xs ys \<le> n"
proof (induction rule: edits.induct)
  case finished
  show ?case by simp
next
  case (keep xs ys n x)
  then show ?case by simp
next
  case (substitute xs ys n x y)
  then show ?case by (simp add: min_le_iff_disj)
next
  case (delete xs ys n x)
  show ?case
  proof (cases ys)
    case Nil
    then show ?thesis using delete.IH by (simp add: editDistance_Nil2)
  next
    case (Cons y ys')
    have "editDistance (x # xs) (y # ys') \<le> editDistance xs (y # ys') + 1"
      by (simp add: min_le_iff_disj)
    then show ?thesis using delete.IH Cons by simp
  qed
next
  case (insert xs ys n y)
  show ?case
  proof (cases xs)
    case Nil
    then show ?thesis using insert.IH by simp
  next
    case (Cons x xs')
    have "editDistance (x # xs') (y # ys) \<le> editDistance (x # xs') ys + 1"
      by (simp add: min_le_iff_disj)
    then show ?thesis using insert.IH Cons by simp
  qed
qed

lemma edits_snoc_keep: "edits xs ys n \<Longrightarrow> edits (xs @ [a]) (ys @ [a]) n"
  by (induction rule: edits.induct) (auto intro: edits.intros)

lemma edits_snoc_substitute: "edits xs ys n \<Longrightarrow> edits (xs @ [a]) (ys @ [b]) (Suc n)"
  by (induction rule: edits.induct) (auto intro: edits.intros)

lemma edits_snoc_delete: "edits xs ys n \<Longrightarrow> edits (xs @ [a]) ys (Suc n)"
  by (induction rule: edits.induct) (auto intro: edits.intros)

lemma edits_snoc_insert: "edits xs ys n \<Longrightarrow> edits xs (ys @ [b]) (Suc n)"
  by (induction rule: edits.induct) (auto intro: edits.intros)

lemma edits_rev: "edits xs ys n \<Longrightarrow> edits (rev xs) (rev ys) n"
  by (induction rule: edits.induct)
     (auto intro: edits.finished edits_snoc_keep edits_snoc_substitute edits_snoc_delete
        edits_snoc_insert)

lemma edits_sym: "edits xs ys n \<Longrightarrow> edits ys xs n"
  by (induction rule: edits.induct) (auto intro: edits.intros)

lemma editDistance_rev: "editDistance (rev xs) (rev ys) = editDistance xs ys"
proof (rule antisym)
  show "editDistance (rev xs) (rev ys) \<le> editDistance xs ys"
    by (rule editDistance_le [OF edits_rev [OF edits_editDistance]])
  have "edits (rev (rev xs)) (rev (rev ys)) (editDistance (rev xs) (rev ys))"
    by (rule edits_rev [OF edits_editDistance])
  then have "edits xs ys (editDistance (rev xs) (rev ys))" by simp
  then show "editDistance xs ys \<le> editDistance (rev xs) (rev ys)"
    by (rule editDistance_le)
qed

lemma editDistance_sym: "editDistance xs ys = editDistance ys xs"
  by (rule antisym) (rule editDistance_le [OF edits_sym [OF edits_editDistance]])+

lemma edits_drop_head: "edits zs ys n \<Longrightarrow> zs = x # xs \<Longrightarrow> \<exists>m\<le>Suc n. edits xs ys m"
proof (induction arbitrary: x xs rule: edits.induct)
  case finished
  then show ?case by simp
next
  case (keep xs' ys n x')
  then have "edits xs (x # ys) (Suc n)" by (auto intro: edits.insert)
  then show ?case using keep.prems by auto
next
  case (substitute xs' ys n x' y)
  then have "edits xs (y # ys) (Suc n)" by (auto intro: edits.insert)
  then show ?case by (meson le_SucI order_refl)
next
  case (delete xs' ys n x')
  then have "edits xs ys n" by simp
  then show ?case by (meson le_SucI order_refl)
next
  case (insert zs ys n y)
  then obtain m where "m \<le> Suc n" "edits xs ys m" by blast
  then have "Suc m \<le> Suc (Suc n)" "edits xs (y # ys) (Suc m)" by (auto intro: edits.insert)
  then show ?case by blast
qed

lemma editDistance_drop_left: "editDistance xs ys \<le> editDistance (x # xs) ys + 1"
proof -
  have "\<exists>m\<le>Suc (editDistance (x # xs) ys). edits xs ys m"
    using edits_editDistance [of "x # xs" ys] by (rule edits_drop_head) simp
  then obtain m where m: "m \<le> Suc (editDistance (x # xs) ys)" and e: "edits xs ys m"
    by blast
  have "editDistance xs ys \<le> m" using e by (rule editDistance_le)
  then show ?thesis using m by linarith
qed

lemma editDistance_drop_right: "editDistance xs ys \<le> editDistance xs (y # ys) + 1"
proof -
  have "editDistance ys xs \<le> editDistance (y # ys) xs + 1"
    by (rule editDistance_drop_left)
  moreover have "editDistance ys xs = editDistance xs ys"
    by (rule editDistance_sym)
  moreover have "editDistance (y # ys) xs = editDistance xs (y # ys)"
    by (rule editDistance_sym)
  ultimately show ?thesis by linarith
qed

lemma editDistance_Cons_Cons:
  "editDistance (x # xs) (y # ys) =
     (if x = y then editDistance xs ys
      else min (min (editDistance xs ys) (editDistance (x # xs) ys)) (editDistance xs (y # ys)) + 1)"
proof (cases "x = y")
  case True
  have "editDistance xs ys \<le> editDistance xs (y # ys) + 1"
    by (rule editDistance_drop_right)
  moreover have "editDistance xs ys \<le> editDistance (x # xs) ys + 1"
    by (rule editDistance_drop_left)
  ultimately show ?thesis using True by simp
next
  case False
  then show ?thesis by (simp add: min_def)
qed

lemma editDistance_snoc_snoc:
  "editDistance (xs @ [x]) (ys @ [y]) =
     (if x = y then editDistance xs ys
      else min (min (editDistance xs ys) (editDistance (xs @ [x]) ys)) (editDistance xs (ys @ [y])) + 1)"
proof -
  have "editDistance (xs @ [x]) (ys @ [y]) = editDistance (x # rev xs) (y # rev ys)"
    using editDistance_rev [of "xs @ [x]" "ys @ [y]"] by simp
  moreover have "editDistance (x # rev xs) (rev ys) = editDistance (xs @ [x]) ys"
    using editDistance_rev [of "xs @ [x]" ys] by simp
  moreover have "editDistance (rev xs) (y # rev ys) = editDistance xs (ys @ [y])"
    using editDistance_rev [of xs "ys @ [y]"] by simp
  ultimately show ?thesis
    by (simp only: editDistance_Cons_Cons editDistance_rev)
qed

lemma editDistance_same: "editDistance xs xs = 0"
  by (induction xs) (simp_all add: editDistance_Cons_Cons)

lemma editDistance_le_max: "editDistance xs ys \<le> max (length xs) (length ys)"
proof (induction xs ys rule: editDistance.induct)
  case (3 x xs y ys)
  then show ?case by (auto simp: min_le_iff_disj)
qed simp_all

lemma prefix_distance_0_left: "j \<le> length s2 \<Longrightarrow> prefix_distance s1 s2 0 j = j"
  by (simp add: prefix_distance_def)

lemma prefix_distance_0_right: "i \<le> length s1 \<Longrightarrow> prefix_distance s1 s2 i 0 = i"
  by (simp add: prefix_distance_def editDistance_Nil2)

lemma prefix_distance_Suc_Suc:
  assumes "i < length s1" "j < length s2"
  shows "prefix_distance s1 s2 (Suc i) (Suc j) =
     (if s1 ! i = s2 ! j then prefix_distance s1 s2 i j
      else min (min (prefix_distance s1 s2 i j) (prefix_distance s1 s2 (Suc i) j))
               (prefix_distance s1 s2 i (Suc j)) + 1)"
  using assms
  by (simp only: prefix_distance_def take_Suc_conv_app_nth editDistance_snoc_snoc)

lemma lev_step_first_row:
  "fold (lev_step s1 s2 0) [0..<k] ([], l) = ([0..<k], l)"
  by (induction k) (simp_all add: lev_step_def array_set_def)

lemma lev_row_first: "lev_row s1 s2 0 [] = [0..<Suc (length s2)]"
  unfolding lev_row_def lev_step_first_row by simp

lemma lev_step_next_row:
  assumes i: "i < length s1"
    and len: "length costs = Suc (length s2)"
    and row: "\<forall>j\<le>length s2. costs ! j = prefix_distance s1 s2 i j"
    and k: "k \<le> length s2"
  shows "\<exists>cs. fold (lev_step s1 s2 (Suc i)) [0..<Suc k] (costs, Suc i)
               = (cs, prefix_distance s1 s2 (Suc i) k)
            \<and> length cs = Suc (length s2)
            \<and> (\<forall>j<k. cs ! j = prefix_distance s1 s2 (Suc i) j)
            \<and> (\<forall>j. k \<le> j \<and> j \<le> length s2 \<longrightarrow> cs ! j = prefix_distance s1 s2 i j)"
  using k
proof (induction k)
  case 0
  have "fold (lev_step s1 s2 (Suc i)) [0..<Suc 0] (costs, Suc i) = (costs, Suc i)"
    by (simp add: lev_step_def)
  moreover have "prefix_distance s1 s2 (Suc i) 0 = Suc i"
    using i by (simp add: prefix_distance_0_right)
  ultimately show ?case using len row by simp
next
  case (Suc k)
  then have k: "k < length s2" by simp
  from Suc obtain cs where
    f: "fold (lev_step s1 s2 (Suc i)) [0..<Suc k] (costs, Suc i)
          = (cs, prefix_distance s1 s2 (Suc i) k)"
    and l: "length cs = Suc (length s2)"
    and new: "\<forall>j<k. cs ! j = prefix_distance s1 s2 (Suc i) j"
    and old: "\<forall>j. k \<le> j \<and> j \<le> length s2 \<longrightarrow> cs ! j = prefix_distance s1 s2 i j"
    by auto
  have ck: "cs ! k = prefix_distance s1 s2 i k" using old k by simp
  have cSk: "cs ! Suc k = prefix_distance s1 s2 i (Suc k)" using old k by simp
  let ?cs' = "cs[k := prefix_distance s1 s2 (Suc i) k]"
  have step: "lev_step s1 s2 (Suc i) (Suc k) (cs, prefix_distance s1 s2 (Suc i) k)
      = (?cs', prefix_distance s1 s2 (Suc i) (Suc k))"
    using k l by (simp add: lev_step_def array_set_def ck cSk prefix_distance_Suc_Suc [OF i k])
  have "fold (lev_step s1 s2 (Suc i)) [0..<Suc (Suc k)] (costs, Suc i)
      = lev_step s1 s2 (Suc i) (Suc k) (fold (lev_step s1 s2 (Suc i)) [0..<Suc k] (costs, Suc i))"
    by simp
  then have F: "fold (lev_step s1 s2 (Suc i)) [0..<Suc (Suc k)] (costs, Suc i)
      = (?cs', prefix_distance s1 s2 (Suc i) (Suc k))"
    by (simp only: f step)
  have L: "length ?cs' = Suc (length s2)" using l by simp
  have N: "\<forall>j<Suc k. ?cs' ! j = prefix_distance s1 s2 (Suc i) j"
    using new k l by (auto simp: nth_list_update less_Suc_eq)
  have O: "\<forall>j. Suc k \<le> j \<and> j \<le> length s2 \<longrightarrow> ?cs' ! j = prefix_distance s1 s2 i j"
    using old by (auto simp: nth_list_update)
  show ?case using F L N O by blast
qed

lemma lev_row_next:
  assumes i: "i < length s1"
    and len: "length costs = Suc (length s2)"
    and row: "\<forall>j\<le>length s2. costs ! j = prefix_distance s1 s2 i j"
  shows "length (lev_row s1 s2 (Suc i) costs) = Suc (length s2) \<and>
         (\<forall>j\<le>length s2. lev_row s1 s2 (Suc i) costs ! j = prefix_distance s1 s2 (Suc i) j)"
proof -
  obtain cs where
    f: "fold (lev_step s1 s2 (Suc i)) [0..<Suc (length s2)] (costs, Suc i)
          = (cs, prefix_distance s1 s2 (Suc i) (length s2))"
    and l: "length cs = Suc (length s2)"
    and new: "\<forall>j<length s2. cs ! j = prefix_distance s1 s2 (Suc i) j"
    using lev_step_next_row [OF i len row order_refl] by blast
  have r: "lev_row s1 s2 (Suc i) costs = cs[length s2 := prefix_distance s1 s2 (Suc i) (length s2)]"
    unfolding lev_row_def f using l by (simp add: array_set_def)
  show ?thesis
    unfolding r using l new by (auto simp: nth_list_update le_less)
qed

lemma lev_rows:
  "m \<le> length s1 \<Longrightarrow>
   length (fold (lev_row s1 s2) [0..<Suc m] []) = Suc (length s2) \<and>
   (\<forall>j\<le>length s2. fold (lev_row s1 s2) [0..<Suc m] [] ! j = prefix_distance s1 s2 m j)"
proof (induction m)
  case 0
  show ?case by (simp add: lev_row_first prefix_distance_0_left nth_append less_Suc_eq_le)
next
  case (Suc m)
  then have m: "m < length s1" by simp
  have ih: "length (fold (lev_row s1 s2) [0..<Suc m] []) = Suc (length s2)"
    "\<forall>j\<le>length s2. fold (lev_row s1 s2) [0..<Suc m] [] ! j = prefix_distance s1 s2 m j"
    using Suc by simp_all
  have e: "fold (lev_row s1 s2) [0..<Suc (Suc m)] []
      = lev_row s1 s2 (Suc m) (fold (lev_row s1 s2) [0..<Suc m] [])"
    by simp
  show ?case unfolding e by (rule lev_row_next [OF m ih])
qed

lemma levenshtein_editDistance: "levenshtein s1 s2 = editDistance s1 s2"
  using lev_rows [of "length s1" s1 s2]
  by (simp add: levenshtein_def prefix_distance_def)

section \<open>Similarity\<close>

lemma similarity_nonempty:
  assumes "s1 \<noteq> [] \<or> s2 \<noteq> []"
  shows "similarity s1 s2 =
         (of_nat (max (length s1) (length s2)) - of_nat (editDistance s1 s2))
         / of_nat (max (length s1) (length s2))"
proof (cases "length s2 < length s1")
  case True
  then have "max (length s1) (length s2) = length s1" "s1 \<noteq> []" by auto
  then show ?thesis using True
    by (simp add: similarity_def levenshtein_editDistance)
next
  case False
  then have m: "max (length s1) (length s2) = length s2" by auto
  have "s2 \<noteq> []" using False assms by auto
  moreover have "editDistance s2 s1 = editDistance s1 s2" by (rule editDistance_sym)
  ultimately show ?thesis using False m
    by (simp add: similarity_def levenshtein_editDistance)
qed

lemma similarity_same: "similarity x x = 1"
  by (simp add: similarity_def levenshtein_editDistance editDistance_same)

text \<open>
  C4. For strings that are not both empty, the similarity is the quotient of the
  longer length minus the edit distance by the longer length, where the edit distance
  is the Levenshtein distance: some sequence of that many single-character edits turns
  the first string into the second, and none is shorter. The similarity of a string
  with itself is 1, and that of the empty string with itself is 1 as well (there the
  quotient has the denominator 0 and the code returns 1 before dividing).
\<close>

theorem similarity_formula:
  "(s1 \<noteq> [] \<or> s2 \<noteq> [] \<longrightarrow>
      similarity s1 s2 =
        (of_nat (max (length s1) (length s2)) - of_nat (editDistance s1 s2))
        / of_nat (max (length s1) (length s2))) \<and>
   edits s1 s2 (editDistance s1 s2) \<and>
   (\<forall>n. edits s1 s2 n \<longrightarrow> editDistance s1 s2 \<le> n) \<and>
   similarity x x = 1 \<and> similarity [] [] = 1"
  using similarity_nonempty [of s1 s2] edits_editDistance [of s1 s2]
    editDistance_le [of s1 s2] similarity_same [of x] similarity_same [of "[]"]
  by blast

theorem similarity_formula_witness:
  "''kitten'' \<noteq> [] \<and> similarity ''kitten'' ''sitting'' = 4 / 7 \<and>
   edits ''kitten'' ''sitting'' 3 \<and> editDistance ''kitten'' ''sitting'' \<le> 3"
proof -
  have d: "editDistance ''kitten'' ''sitting'' = 3" by code_simp
  have n: "''kitten'' \<noteq> [] \<or> ''sitting'' \<noteq> []" by simp
  have "similarity ''kitten'' ''sitting'' =
        (of_nat (max (length ''kitten'') (length ''sitting'')) - of_nat 3)
        / of_nat (max (length ''kitten'') (length ''sitting''))"
    using similarity_formula [of "''kitten''" "''sitting''"] n unfolding d by blast
  then have s: "similarity ''kitten'' ''sitting'' = 4 / 7" by simp
  have e: "edits ''kitten'' ''sitting'' 3"
    using similarity_formula [of "''kitten''" "''sitting''"] unfolding d by blast
  then have "editDistance ''kitten'' ''sitting'' \<le> 3"
    using similarity_formula [of "''kitten''" "''sitting''"] by blast
  then show ?thesis using n s e by blast
qed

section \<open>Cycle detector\<close>


lemma record_cycle_nonempty: "record_cycle node stack cycles \<noteq> []"
  by (cases cycles) (simp_all add: record_cycle_def Let_def)



text \<open>
  C2 fails on two components that import each other. The search from \<^verbatim>\<open>a.ts\<close> finds
  the closed walk \<^verbatim>\<open>a.ts, b.ts, a.ts\<close>; the list it reports has been sorted in place for
  the duplicate key and is \<^verbatim>\<open>a.ts, a.ts, b.ts\<close>, which does not end where it starts and
  whose first step is not an edge.
\<close>

theorem reported_cycle_not_closed_walk:
  "detectCircularDependencies 3 example_pair = Some
     [\<lparr>cycle = [''a.ts'', ''a.ts'', ''b.ts''], severity = Error\<rparr>,
      \<lparr>cycle = [''a.ts'', ''b.ts'', ''b.ts''], severity = Error\<rparr>] \<and>
   \<not> closed_walk (buildDependencyGraph example_pair) [''a.ts'', ''a.ts'', ''b.ts''] \<and>
   closed_walk (buildDependencyGraph example_pair) [''a.ts'', ''b.ts'', ''a.ts'']"
  by code_simp

subsection \<open>The search returns\<close>

lemma resolve_in_catalog: "resolve components dep = Some p \<Longrightarrow> p \<in> path ` set components"
  by (auto simp: resolve_def find_Some_iff)

lemma map_filter_resolve_in_catalog:
  "set (List.map_filter (resolve components) deps) \<subseteq> path ` set components"
  by (auto simp: List.map_filter_def dest: resolve_in_catalog)

lemma graph_fold_range:
  assumes "\<forall>n ns. graph n = Some ns \<longrightarrow> set ns \<subseteq> U"
    and "\<forall>c deps. set (f c) \<subseteq> U"
  shows "fold (\<lambda>component graph. graph(path component \<mapsto> f component)) cs graph n = Some ns
         \<Longrightarrow> set ns \<subseteq> U"
  using assms(1)
proof (induction cs arbitrary: graph)
  case Nil
  then show ?case by simp
next
  case (Cons c cs)
  have "\<forall>n ns. (graph(path c \<mapsto> f c)) n = Some ns \<longrightarrow> set ns \<subseteq> U"
    using Cons.prems(2) assms(2) by (auto split: if_splits)
  then show ?case using Cons.IH [of "graph(path c \<mapsto> f c)"] Cons.prems(1) by simp
qed

lemma neighbors_in_catalog:
  "set (neighbors (buildDependencyGraph components) n) \<subseteq> path ` set components"
proof (cases "buildDependencyGraph components n")
  case None
  then show ?thesis by (simp add: neighbors_def)
next
  case (Some ns)
  have "set ns \<subseteq> path ` set components"
    using Some unfolding buildDependencyGraph_def
    by (rule graph_fold_range [rotated 2]) (simp_all add: map_filter_resolve_in_catalog)
  then show ?thesis using Some by (simp add: neighbors_def)
qed

lemma findCycles_returns:
  assumes fin: "finite U" and closed: "\<forall>n. set (neighbors graph n) \<subseteq> U"
  shows "node \<in> U \<Longrightarrow> card (U - visited) < depth \<Longrightarrow>
         \<exists>v' c'. findCycles depth graph node stack (visited, cycles) = Some (v', c')
                \<and> visited \<subseteq> v'"
proof (induction depth arbitrary: node stack visited cycles)
  case 0
  then show ?case by simp
next
  case (Suc depth)
  show ?case
  proof (cases "node \<in> set stack \<or> node \<in> visited")
    case True
    then show ?thesis by auto
  next
    case False
    let ?v = "insert node visited"
    have "U - ?v \<subset> U - visited" using False Suc.prems(1) by auto
    then have "card (U - ?v) < card (U - visited)"
      using fin by (intro psubset_card_mono) auto
    then have small: "card (U - ?v) < depth" using Suc.prems(2) by simp
    have loop: "set ns \<subseteq> U \<Longrightarrow> ?v \<subseteq> v \<Longrightarrow>
        \<exists>v' c'. fold_option (\<lambda>neighbor. findCycles depth graph neighbor (stack @ [node]))
                   ns (v, c) = Some (v', c') \<and> v \<subseteq> v'" for ns v c
    proof (induction ns arbitrary: v c)
      case Nil
      then show ?case by simp
    next
      case (Cons n ns)
      have "card (U - v) \<le> card (U - ?v)"
        using fin Cons.prems(2) by (intro card_mono) auto
      then have "card (U - v) < depth" using small by simp
      moreover have "n \<in> U" using Cons.prems(1) by simp
      ultimately obtain v1 c1 where
        one: "findCycles depth graph n (stack @ [node]) (v, c) = Some (v1, c1)"
        and sub: "v \<subseteq> v1"
        using Suc.IH by blast
      have "?v \<subseteq> v1" using sub Cons.prems(2) by blast
      moreover have "set ns \<subseteq> U" using Cons.prems(1) by simp
      ultimately obtain v' c' where
        "fold_option (\<lambda>neighbor. findCycles depth graph neighbor (stack @ [node]))
           ns (v1, c1) = Some (v', c')" and "v1 \<subseteq> v'"
        using Cons.IH by blast
      then show ?case using one sub by auto
    qed
    have "set (neighbors graph node) \<subseteq> U" using closed by simp
    from loop [OF this subset_refl, of cycles]
    show ?thesis using False by auto
  qed
qed

text \<open>
  The search from every component returns as soon as the depth bound exceeds the number
  of components: each nested call adds a path of the catalog to \<^verbatim>\<open>visited\<close>, or is the
  last one.
\<close>

lemma detectCircularDependencies_returns:
  assumes "length components < depth"
  shows "\<exists>r. detectCircularDependencies depth components = Some r"
proof -
  let ?U = "path ` set components"
  let ?g = "buildDependencyGraph components"
  have fin: "finite ?U" by simp
  have closed: "\<forall>n. set (neighbors ?g n) \<subseteq> ?U"
    by (simp add: neighbors_in_catalog)
  have "card ?U \<le> length components"
    by (metis card_image_le card_length le_trans List.finite_set)
  then have small: "card (?U - {}) < depth" using assms by simp
  have loop: "set cs \<subseteq> set components \<Longrightarrow>
      \<exists>r. fold_option
             (\<lambda>component cycles.
                map_option snd (findCycles depth ?g (path component) [] ({}, cycles)))
             cs cycles = Some r" for cs cycles
  proof (induction cs arbitrary: cycles)
    case Nil
    then show ?case by simp
  next
    case (Cons c cs)
    have "path c \<in> ?U" using Cons.prems by auto
    then obtain v' c' where
      "findCycles depth ?g (path c) [] ({}, cycles) = Some (v', c')"
      using findCycles_returns [OF fin closed _ small] by blast
    moreover have "set cs \<subseteq> set components" using Cons.prems by simp
    ultimately show ?case using Cons.IH [of c'] by (simp del: findCycles.simps)
  qed
  show ?thesis
    unfolding detectCircularDependencies_def Let_def by (rule loop) simp
qed

lemma fold_option_mono:
  assumes "\<And>x s r. f x s = Some r \<Longrightarrow> f' x s = Some r"
  shows "fold_option f xs s = Some r \<Longrightarrow> fold_option f' xs s = Some r"
proof (induction xs arbitrary: s)
  case Nil
  then show ?case by simp
next
  case (Cons x xs)
  then obtain s1 where "f x s = Some s1" "fold_option f xs s1 = Some r"
    by (auto split: option.splits)
  then show ?case using assms [of x s s1] Cons.IH by simp
qed

lemma findCycles_deeper:
  "findCycles depth graph node stack st = Some r \<Longrightarrow>
   findCycles (Suc depth) graph node stack st = Some r"
proof (induction depth arbitrary: node stack st r)
  case 0
  then show ?case by simp
next
  case (Suc depth)
  obtain visited cycles where st: "st = (visited, cycles)" by (cases st)
  show ?case
  proof (cases "node \<in> set stack \<or> node \<in> visited")
    case True
    then show ?thesis using Suc.prems st by auto
  next
    case False
    then have "fold_option (\<lambda>neighbor. findCycles depth graph neighbor (stack @ [node]))
        (neighbors graph node) (insert node visited, cycles) = Some r"
      using Suc.prems st by simp
    then have "fold_option (\<lambda>neighbor. findCycles (Suc depth) graph neighbor (stack @ [node]))
        (neighbors graph node) (insert node visited, cycles) = Some r"
      by (rule fold_option_mono [rotated]) (rule Suc.IH)
    then show ?thesis
      using False st by (subst findCycles.simps(2)) (simp del: findCycles.simps)
  qed
qed

text \<open>A larger depth bound does not change what the detector returns.\<close>

lemma detectCircularDependencies_deeper:
  "detectCircularDependencies depth components = Some r \<Longrightarrow>
   detectCircularDependencies (Suc depth) components = Some r"
  unfolding detectCircularDependencies_def Let_def
  by (rule fold_option_mono [rotated], assumption)
     (auto simp del: findCycles.simps dest: findCycles_deeper)

subsection \<open>Duplicate keys of paths without the separator\<close>








subsection \<open>What the search records\<close>










subsection \<open>A ring whose edges are listed first\<close>




subsection \<open>The scan over the catalog\<close>







text \<open>
  What the detector returns on that catalog: the ring three times, as in the catalog of
  the ring alone, and the two components that import each other twice.
\<close>

lemma ring_and_more_reports:
  "detectCircularDependencies 6 example_ring_and_more = Some
     [\<lparr>cycle = [''a.ts'', ''a.ts'', ''b.ts'', ''c.ts''], severity = Warning\<rparr>,
      \<lparr>cycle = [''d.ts'', ''d.ts'', ''e.ts''], severity = Error\<rparr>,
      \<lparr>cycle = [''a.ts'', ''b.ts'', ''b.ts'', ''c.ts''], severity = Warning\<rparr>,
      \<lparr>cycle = [''a.ts'', ''b.ts'', ''c.ts'', ''c.ts''], severity = Warning\<rparr>,
      \<lparr>cycle = [''d.ts'', ''e.ts'', ''e.ts''], severity = Error\<rparr>]"
  by code_simp

text \<open>
  Both conditions on the catalog are needed. When each component of the ring first
  imports a component outside it, every search that closes the ring has the detour on
  its path, and no reported list has the three paths of the ring as its members.
\<close>

lemma ring_behind_detours_not_reported:
  "closed_walk (buildDependencyGraph example_detours) [''a.ts'', ''b.ts'', ''c.ts'', ''a.ts''] \<and>
   detectCircularDependencies 7 example_detours = Some
     [\<lparr>cycle = [''a.ts'', ''a.ts'', ''b.ts'', ''c.ts'', ''p.ts'', ''q.ts'', ''r.ts''],
        severity = Warning\<rparr>,
      \<lparr>cycle = [''a.ts'', ''a.ts'', ''b.ts'', ''c.ts'', ''p.ts'', ''q.ts''],
        severity = Warning\<rparr>,
      \<lparr>cycle = [''a.ts'', ''b.ts'', ''b.ts'', ''c.ts'', ''p.ts'', ''q.ts'', ''r.ts''],
        severity = Warning\<rparr>,
      \<lparr>cycle = [''a.ts'', ''b.ts'', ''b.ts'', ''c.ts'', ''q.ts'', ''r.ts''],
        severity = Warning\<rparr>,
      \<lparr>cycle = [''a.ts'', ''b.ts'', ''c.ts'', ''c.ts'', ''p.ts'', ''q.ts'', ''r.ts''],
        severity = Warning\<rparr>,
      \<lparr>cycle = [''a.ts'', ''b.ts'', ''c.ts'', ''c.ts'', ''p.ts'', ''r.ts''],
        severity = Warning\<rparr>,
      \<lparr>cycle = [''a.ts'', ''b.ts'', ''c.ts'', ''p.ts'', ''p.ts'', ''q.ts'', ''r.ts''],
        severity = Warning\<rparr>,
      \<lparr>cycle = [''a.ts'', ''b.ts'', ''c.ts'', ''p.ts'', ''q.ts'', ''q.ts'', ''r.ts''],
        severity = Warning\<rparr>,
      \<lparr>cycle = [''a.ts'', ''b.ts'', ''c.ts'', ''p.ts'', ''q.ts'', ''r.ts'', ''r.ts''],
        severity = Warning\<rparr>]"
  by code_simp

text \<open>
  When paths contain the separator, different lists have the same key. In the catalog
  below the ring through \<^verbatim>\<open>x->x\<close>, \<^verbatim>\<open>y\<close> and \<^verbatim>\<open>z\<close> has each edge listed first, but its
  three keys \<^verbatim>\<open>x->x->x->x->y->z\<close>, \<^verbatim>\<open>x->x->y->y->z\<close> and \<^verbatim>\<open>x->x->y->z->z\<close> are those of
  the pairs that the scan of \<^verbatim>\<open>x\<close> has recorded before, and the ring is not reported.
\<close>

lemma ring_with_separator_not_reported:
  "closed_walk (buildDependencyGraph example_arrows) [''x->x'', ''y'', ''z'', ''x->x''] \<and>
   map (neighbors (buildDependencyGraph example_arrows)) [''x->x'', ''y'', ''z''] =
     [[''y''], [''z''], [''x->x'']] \<and>
   detectCircularDependencies 8 example_arrows = Some
     [\<lparr>cycle = [''x'', ''x'', ''x->x->y->z''], severity = Error\<rparr>,
      \<lparr>cycle = [''x'', ''x'', ''y->y->z''], severity = Error\<rparr>,
      \<lparr>cycle = [''x'', ''x'', ''y->z->z''], severity = Error\<rparr>,
      \<lparr>cycle = [''x'', ''x->x->y->z'', ''x->x->y->z''], severity = Error\<rparr>,
      \<lparr>cycle = [''x'', ''y->y->z'', ''y->y->z''], severity = Error\<rparr>,
      \<lparr>cycle = [''x'', ''y->z->z'', ''y->z->z''], severity = Error\<rparr>]"
  by code_simp

section \<open>Content cache\<close>

lemma getCachedFileContent_cases:
  "getCachedFileContent e p st =
     (if fileCache st p = None \<or> fileCache st p = Some []
      then (case readFile e p of
              Some text \<Rightarrow> (text, st\<lparr>fileCache := (fileCache st)(p \<mapsto> text)\<rparr>)
            | None \<Rightarrow> ([], st))
      else (the (fileCache st p), st))"
  by (auto simp: getCachedFileContent_def Let_def split: option.splits)

lemma getCachedFileContent_hit:
  "fileCache st p = Some text \<Longrightarrow> text \<noteq> [] \<Longrightarrow> getCachedFileContent e p st = (text, st)"
  by (simp add: getCachedFileContent_def)

lemma getCachedFileContent_unreadable:
  "readFile e p = None \<Longrightarrow> fileCache st p = None \<or> fileCache st p = Some [] \<Longrightarrow>
   getCachedFileContent e p st = ([], st)"
  by (auto simp: getCachedFileContent_def)

lemma getCachedFileContent_astCache:
  "astCache (snd (getCachedFileContent e p st)) = astCache st"
  by (auto simp: getCachedFileContent_def Let_def split: option.splits)

lemma getCachedFileContent_keeps:
  "fileCache st q = Some text \<Longrightarrow> text \<noteq> [] \<Longrightarrow>
   fileCache (snd (getCachedFileContent e p st)) q = Some text"
  by (auto simp: getCachedFileContent_def Let_def split: option.splits)

lemma getCachedFileContent_stable:
  "cached_content e (snd (getCachedFileContent e p st)) q = cached_content e st q"
  by (auto simp: cached_content_def getCachedFileContent_def Let_def split: option.splits)

lemma getCachedFileContent_unread:
  "fileCache st q = None \<or> fileCache st q = Some [] \<Longrightarrow> readFile e q = None \<Longrightarrow>
   fileCache (snd (getCachedFileContent e p st)) q = None \<or>
   fileCache (snd (getCachedFileContent e p st)) q = Some []"
  by (auto simp: getCachedFileContent_def Let_def split: option.splits)

section \<open>Duplication detector\<close>

lemma read_contents_fst:
  "fst (read_contents e repoPath cs st) =
     map (\<lambda>c. make_content c (cached_content e st (path_join e repoPath (path c)))) cs"
proof (induction cs arbitrary: st)
  case Nil
  show ?case by simp
next
  case (Cons c cs)
  obtain content st1 where g: "getCachedFileContent e (path_join e repoPath (path c)) st = (content, st1)"
    by (cases "getCachedFileContent e (path_join e repoPath (path c)) st")
  have st1: "st1 = snd (getCachedFileContent e (path_join e repoPath (path c)) st)"
    and content: "content = cached_content e st (path_join e repoPath (path c))"
    using g by (simp_all add: cached_content_def)
  have "fst (read_contents e repoPath cs st1) =
     map (\<lambda>c. make_content c (cached_content e st (path_join e repoPath (path c)))) cs"
    unfolding Cons.IH st1 getCachedFileContent_stable ..
  then show ?case
    using g content by (simp add: split_beta Let_def)
qed

lemma read_contents_keeps:
  "fileCache st q = Some text \<Longrightarrow> text \<noteq> [] \<Longrightarrow>
   fileCache (snd (read_contents e repoPath cs st)) q = Some text"
proof (induction cs arbitrary: st)
  case Nil
  then show ?case by simp
next
  case (Cons c cs)
  have "fileCache (snd (getCachedFileContent e (path_join e repoPath (path c)) st)) q = Some text"
    using Cons.prems by (rule getCachedFileContent_keeps)
  from Cons.IH [OF this Cons.prems(2)] show ?case
    by (simp add: split_beta Let_def)
qed

lemma read_contents_stable:
  "cached_content e (snd (read_contents e repoPath cs st)) q = cached_content e st q"
proof (induction cs arbitrary: st)
  case Nil
  show ?case by simp
next
  case (Cons c cs)
  show ?case
    by (simp add: split_beta Let_def Cons.IH getCachedFileContent_stable)
qed

lemma read_contents_astCache:
  "astCache (snd (read_contents e repoPath cs st)) = astCache st"
  by (induction cs arbitrary: st) (simp_all add: split_beta Let_def getCachedFileContent_astCache)

lemma compare_pair_append:
  "compare_pair a b instances = instances @ compare_pair a b []"
  by (simp add: compare_pair_def Let_def)

lemma fold_compare_pair:
  "fold (\<lambda>(a, b). compare_pair a b) ps instances =
     instances @ concat (map (\<lambda>(a, b). compare_pair a b []) ps)"
proof (induction ps arbitrary: instances)
  case Nil
  show ?case by simp
next
  case (Cons p ps)
  obtain a b where p: "p = (a, b)" by (cases p)
  show ?case
    unfolding p by (simp add: Cons.IH) (subst compare_pair_append, simp)
qed

lemma inner_loop_below:
  "k + length bs < maxComparisons \<Longrightarrow>
   inner_loop a bs (k, instances) = Inr (k + length bs, fold (\<lambda>b. compare_pair a b) bs instances)"
  by (induction bs arbitrary: k instances) simp_all

lemma fold_map_Pair:
  "fold (\<lambda>(a, b). compare_pair a b) (map (Pair a) bs) instances =
   fold (\<lambda>b. compare_pair a b) bs instances"
  by (induction bs arbitrary: instances) simp_all

lemma outer_loop_below:
  "k + length (all_pairs ccs) < maxComparisons \<Longrightarrow>
   outer_loop ccs (k, instances) = fold (\<lambda>(a, b). compare_pair a b) (all_pairs ccs) instances"
proof (induction ccs arbitrary: k instances)
  case Nil
  show ?case by simp
next
  case (Cons a rest)
  have 1: "k + length rest < maxComparisons" using Cons.prems by simp
  have 2: "(k + length rest) + length (all_pairs rest) < maxComparisons"
    using Cons.prems by simp
  show ?case
    by (simp add: inner_loop_below [OF 1] Cons.IH [OF 2] fold_map_Pair)
qed

lemma length_all_pairs: "2 * length (all_pairs xs) = length xs * (length xs - 1)"
proof (induction xs)
  case Nil
  show ?case by simp
next
  case (Cons x xs)
  then show ?case by (cases xs) (simp_all add: algebra_simps)
qed

lemma set_all_pairs: "(x, y) \<in> set (all_pairs xs) \<Longrightarrow> x \<in> set xs \<and> y \<in> set xs"
  by (induction xs) auto

lemma filter_key_unique:
  "distinct (map k xs) \<Longrightarrow> kb \<in> k ` set xs \<Longrightarrow> \<exists>y. filter (\<lambda>y. k y = kb) xs = [y]"
proof (induction xs)
  case Nil
  then show ?case by simp
next
  case (Cons x xs)
  show ?case
  proof (cases "k x = kb")
    case True
    then have "\<forall>y \<in> set xs. k y \<noteq> kb" using Cons.prems(1) by (auto simp: image_iff)
    then have "filter (\<lambda>y. k y = kb) xs = []" by (simp add: filter_empty_conv)
    then show ?thesis using True by simp
  next
    case False
    then show ?thesis using Cons by auto
  qed
qed

lemma filter_all_pairs_unique:
  assumes "ka \<noteq> kb"
  shows "distinct (map k xs) \<Longrightarrow> ka \<in> k ` set xs \<Longrightarrow> kb \<in> k ` set xs \<Longrightarrow>
         \<exists>u v. filter (\<lambda>(x, y). {k x, k y} = {ka, kb}) (all_pairs xs) = [(u, v)]"
proof (induction xs)
  case Nil
  then show ?case by simp
next
  case (Cons x xs)
  let ?Q = "\<lambda>(x, y). {k x, k y} = {ka, kb}"
  have split: "filter ?Q (all_pairs (x # xs)) =
      map (Pair x) (filter (\<lambda>y. {k x, k y} = {ka, kb}) xs) @ filter ?Q (all_pairs xs)"
    by (simp add: filter_map comp_def)
  have fresh: "\<forall>y \<in> set xs. k y \<noteq> k x" using Cons.prems(1) by (auto simp: image_iff)
  consider "k x = ka" | "k x = kb" | "k x \<noteq> ka \<and> k x \<noteq> kb" by blast
  then show ?case
  proof cases
    case 1
    have "kb \<in> k ` set xs" using Cons.prems(3) 1 assms by auto
    then obtain y where y: "filter (\<lambda>y. k y = kb) xs = [y]"
      using filter_key_unique [of k xs kb] Cons.prems(1) by auto
    have "filter (\<lambda>y. {k x, k y} = {ka, kb}) xs = filter (\<lambda>y. k y = kb) xs"
      using fresh 1 assms by (intro filter_cong) (auto simp: doubleton_eq_iff)
    moreover have "filter ?Q (all_pairs xs) = []"
      using fresh 1 by (auto simp: filter_empty_conv doubleton_eq_iff dest!: set_all_pairs)
    ultimately show ?thesis unfolding split using y by simp
  next
    case 2
    have "ka \<in> k ` set xs" using Cons.prems(2) 2 assms by auto
    then obtain y where y: "filter (\<lambda>y. k y = ka) xs = [y]"
      using filter_key_unique [of k xs ka] Cons.prems(1) by auto
    have "filter (\<lambda>y. {k x, k y} = {ka, kb}) xs = filter (\<lambda>y. k y = ka) xs"
      using fresh 2 assms by (intro filter_cong) (auto simp: doubleton_eq_iff)
    moreover have "filter ?Q (all_pairs xs) = []"
      using fresh 2 by (auto simp: filter_empty_conv doubleton_eq_iff dest!: set_all_pairs)
    ultimately show ?thesis unfolding split using y by simp
  next
    case 3
    then have "filter (\<lambda>y. {k x, k y} = {ka, kb}) xs = []"
      by (auto simp: filter_empty_conv doubleton_eq_iff)
    moreover have "\<exists>u v. filter ?Q (all_pairs xs) = [(u, v)]"
      using Cons 3 by auto
    ultimately show ?thesis unfolding split by simp
  qed
qed

lemma filter_concat_map:
  assumes "\<And>p i. p \<in> set ps \<Longrightarrow> i \<in> set (f p) \<Longrightarrow> P i = Q p"
  shows "filter P (concat (map f ps)) = concat (map f (filter Q ps))"
  using assms
proof (induction ps)
  case Nil
  show ?case by simp
next
  case (Cons p ps)
  have "filter P (f p) = (if Q p then f p else [])"
    using Cons.prems [of p] by (auto simp: filter_empty_conv filter_id_conv)
  moreover have "filter P (concat (map f ps)) = concat (map f (filter Q ps))"
    using Cons.prems by (intro Cons.IH) auto
  ultimately show ?case by simp
qed

lemma compare_pair_files:
  "i \<in> set (compare_pair a b []) \<Longrightarrow> files i = [path (cc_component a), path (cc_component b)]"
  by (auto simp: compare_pair_def Let_def split: if_splits)

lemma compare_pair_identical:
  assumes "minLines \<le> length (split_nl text)"
  shows "\<exists>i. compare_pair (make_content ca text) (make_content cb text) [] = [i] \<and>
             similarity_of i = 1 \<and> files i = [path ca, path cb]"
proof -
  have pos: "0 < length (split_nl text)" using assms unfolding minLines_def by linarith
  have "\<not> (rat_of_nat (length (split_nl text)) / rat_of_nat (length (split_nl text)) < sizeTolerance)"
    using pos by (simp add: sizeTolerance_def)
  moreover have "minSimilarity \<le> similarity text text"
    by (simp add: similarity_same minSimilarity_def)
  ultimately show ?thesis
    using assms pos by (simp add: compare_pair_def make_content_def Let_def similarity_same)
qed

lemma detectDuplication_fst:
  "fst (detectDuplication e repoPath components st) =
     outer_loop
       (map (\<lambda>c. make_content c (cached_content e st (path_join e repoPath (path c))))
          (filter is_candidate components))
       (0, [])"
  using read_contents_fst [of e repoPath "filter is_candidate components" st]
  by (simp add: detectDuplication_def Let_def split_beta)

lemma detectDuplication_below_cap:
  assumes "length (filter is_candidate components)
             * (length (filter is_candidate components) - 1) < 2 * maxComparisons"
  shows "fst (detectDuplication e repoPath components st) =
     concat (map (\<lambda>(x, y). compare_pair x y [])
       (all_pairs
         (map (\<lambda>c. make_content c (cached_content e st (path_join e repoPath (path c))))
            (filter is_candidate components))))"
proof -
  let ?ccs = "map (\<lambda>c. make_content c (cached_content e st (path_join e repoPath (path c))))
            (filter is_candidate components)"
  have "2 * length (all_pairs ?ccs) < 2 * maxComparisons"
    using assms by (simp add: length_all_pairs)
  then have "0 + length (all_pairs ?ccs) < maxComparisons" by simp
  then show ?thesis
    unfolding detectDuplication_fst by (simp only: outer_loop_below fold_compare_pair append_Nil)
qed

lemma identical_pair_once:
  assumes unique: "distinct (map path components)"
    and cap: "length (filter is_candidate components)
               * (length (filter is_candidate components) - 1) < 2 * maxComparisons"
    and a: "a \<in> set components" "is_candidate a"
    and b: "b \<in> set components" "is_candidate b"
    and ab: "path a \<noteq> path b"
    and ta: "cached_content e st (path_join e repoPath (path a)) = text"
    and tb: "cached_content e st (path_join e repoPath (path b)) = text"
    and long: "10 \<le> length (split_nl text)"
  shows "\<exists>inst. instances_for (path a) (path b)
                  (fst (detectDuplication e repoPath components st)) = [inst]
               \<and> similarity_of inst = 1"
proof -
  let ?mk = "\<lambda>c. make_content c (cached_content e st (path_join e repoPath (path c)))"
  let ?cands = "filter is_candidate components"
  let ?ccs = "map ?mk ?cands"
  let ?k = "\<lambda>x. path (cc_component x)"
  let ?f = "\<lambda>(x, y). compare_pair x y []"
  let ?Q = "\<lambda>(x, y). {?k x, ?k y} = {path a, path b}"
  have kmk: "?k (?mk c) = path c" for c
    by (simp add: make_content_def)
  have keys: "map ?k ?ccs = map path ?cands"
    unfolding map_map comp_def kmk ..
  have dist: "distinct (map ?k ?ccs)"
    unfolding keys using unique by (rule distinct_map_filter)
  have "a \<in> set ?cands" "b \<in> set ?cands" using a b by simp_all
  then have "?mk a \<in> set ?ccs" "?mk b \<in> set ?ccs" by (simp_all del: set_filter)
  then have "?k (?mk a) \<in> ?k ` set ?ccs" "?k (?mk b) \<in> ?k ` set ?ccs"
    by blast+
  then have ka: "path a \<in> ?k ` set ?ccs" and kb: "path b \<in> ?k ` set ?ccs"
    unfolding kmk .
  obtain u v where uv: "filter ?Q (all_pairs ?ccs) = [(u, v)]"
    using filter_all_pairs_unique [OF ab dist ka kb] by blast
  then have "(u, v) \<in> set (filter ?Q (all_pairs ?ccs))" by simp
  then have quv: "{?k u, ?k v} = {path a, path b}" and mem: "(u, v) \<in> set (all_pairs ?ccs)"
    by simp_all
  have "u \<in> set ?ccs" "v \<in> set ?ccs" using set_all_pairs [OF mem] by blast+
  then obtain cu cv where u: "u = ?mk cu" and v: "v = ?mk cv"
    unfolding set_map by blast
  have "path cu \<in> {path a, path b}" "path cv \<in> {path a, path b}"
    using quv unfolding u v kmk by (auto simp: doubleton_eq_iff)
  then have "cached_content e st (path_join e repoPath (path cu)) = text"
    "cached_content e st (path_join e repoPath (path cv)) = text"
    using ta tb by auto
  then have "u = make_content cu text" "v = make_content cv text"
    unfolding u v by simp_all
  moreover have "minLines \<le> length (split_nl text)" using long by (simp add: minLines_def)
  ultimately obtain i where i: "compare_pair u v [] = [i]" and sim: "similarity_of i = 1"
    using compare_pair_identical [of "text" cu cv] by blast
  have "instances_for (path a) (path b) (fst (detectDuplication e repoPath components st)) =
        filter (\<lambda>inst. set (files inst) = {path a, path b}) (concat (map ?f (all_pairs ?ccs)))"
    unfolding instances_for_def detectDuplication_below_cap [OF cap] ..
  also have "\<dots> = concat (map ?f (filter ?Q (all_pairs ?ccs)))"
  proof (rule filter_concat_map)
    fix p i
    assume "p \<in> set (all_pairs ?ccs)" and i: "i \<in> set (?f p)"
    obtain x y where p: "p = (x, y)" by (cases p)
    have "files i = [?k x, ?k y]" using i unfolding p by (simp add: compare_pair_files)
    then show "(set (files i) = {path a, path b}) = ?Q p"
      unfolding p by simp
  qed
  also have "\<dots> = [i]" unfolding uv using i by simp
  finally show ?thesis using sim by blast
qed

text \<open>
  C5, as the code has it. In a catalog with pairwise different paths and fewer than
  100000 pairs of candidate files (so that the comparison cap is not reached), two
  components that pass the candidate filter (catalog line count at least 10, no test
  marker in the path) and whose files have the same text of at least 10 lines give
  exactly one duplication instance for their two paths, and its similarity is 1.
\<close>

theorem identical_files_reported_once:
  assumes unique: "distinct (map path components)"
    and cap: "length (filter is_candidate components)
               * (length (filter is_candidate components) - 1) < 2 * maxComparisons"
    and a: "a \<in> set components" "is_candidate a"
    and b: "b \<in> set components" "is_candidate b"
    and ab: "path a \<noteq> path b"
    and ta: "cached_content e st (path_join e repoPath (path a)) = text"
    and tb: "cached_content e st (path_join e repoPath (path b)) = text"
    and long: "10 \<le> length (split_nl text)"
  shows "\<exists>inst. instances_for (path a) (path b)
                  (fst (detectDuplication e repoPath components st)) = [inst]
               \<and> similarity_of inst = 1"
  by (rule identical_pair_once [OF assms])

subsection \<open>The example files\<close>

lemma example_text_lines: "length (split_nl example_text) = 10"
  by code_simp

lemma example_twins_candidates: "is_candidate example_twin_a" "is_candidate example_twin_b"
  by code_simp+

lemma example_read_a:
  "cached_content example_env empty_caches (path_join example_env ''repo'' (path example_twin_a))
     = example_text"
  by (simp add: cached_content_def getCachedFileContent_def empty_caches_def example_env_def
      example_twin_a_def)

lemma example_read_b:
  "cached_content example_env empty_caches (path_join example_env ''repo'' (path example_twin_b))
     = example_text"
  by (simp add: cached_content_def getCachedFileContent_def empty_caches_def example_env_def
      example_twin_b_def)

theorem identical_files_reported_once_witness:
  "distinct (map path example_twins) \<and>
   length (filter is_candidate example_twins) * (length (filter is_candidate example_twins) - 1)
     < 2 * maxComparisons \<and>
   example_twin_a \<in> set example_twins \<and> is_candidate example_twin_a \<and>
   example_twin_b \<in> set example_twins \<and> is_candidate example_twin_b \<and>
   path example_twin_a \<noteq> path example_twin_b \<and>
   cached_content example_env empty_caches (path_join example_env ''repo'' (path example_twin_a))
     = example_text \<and>
   cached_content example_env empty_caches (path_join example_env ''repo'' (path example_twin_b))
     = example_text \<and>
   10 \<le> length (split_nl example_text) \<and>
   (\<exists>inst. instances_for (path example_twin_a) (path example_twin_b)
            (fst (detectDuplication example_env ''repo'' example_twins empty_caches)) = [inst]
          \<and> similarity_of inst = 1)"
proof -
  have d: "distinct (map path example_twins)"
    by (simp add: example_twins_def example_twin_a_def example_twin_b_def)
  have c: "length (filter is_candidate example_twins)
           * (length (filter is_candidate example_twins) - 1) < 2 * maxComparisons"
    by (simp add: example_twins_def example_twins_candidates maxComparisons_def)
  have a: "example_twin_a \<in> set example_twins" and b: "example_twin_b \<in> set example_twins"
    by (simp_all add: example_twins_def)
  have ab: "path example_twin_a \<noteq> path example_twin_b"
    by (simp add: example_twin_a_def example_twin_b_def)
  have l: "10 \<le> length (split_nl example_text)" by (simp add: example_text_lines)
  show ?thesis
    using identical_files_reported_once [OF d c a example_twins_candidates(1) b
        example_twins_candidates(2) ab example_read_a example_read_b l]
      d c a b ab l example_twins_candidates example_read_a example_read_b
    by blast
qed

subsection \<open>The comparison cap\<close>

lemma compare_pair_short_left:
  "length (cc_lines a) < minLines \<Longrightarrow> compare_pair a b instances = instances"
  by (simp add: compare_pair_def Let_def)

lemma compare_pair_short_right:
  "length (cc_lines b) < minLines \<Longrightarrow> compare_pair a b instances = instances"
  by (simp add: compare_pair_def Let_def)

lemma inner_loop_short:
  "length (cc_lines a) < minLines \<Longrightarrow>
   inner_loop a bs (k, instances) =
     (if bs = [] \<or> k + length bs < maxComparisons then Inr (k + length bs, instances)
      else Inl instances)"
  by (induction bs arbitrary: k) (auto simp: compare_pair_short_left)

lemma inner_loop_exhausted:
  "maxComparisons \<le> k \<Longrightarrow>
   inner_loop a bs (k, instances) = (if bs = [] then Inr (k, instances) else Inl instances)"
  by (cases bs) auto

lemma outer_loop_exhausted:
  "maxComparisons \<le> k \<Longrightarrow> outer_loop rest (k, instances) = instances"
  by (induction rest) (simp_all add: inner_loop_exhausted)

lemma outer_loop_short:
  "\<forall>a \<in> set front. length (cc_lines a) < minLines \<Longrightarrow>
   maxComparisons + length (all_pairs rest) \<le> k + length (all_pairs (front @ rest)) \<Longrightarrow>
   outer_loop (front @ rest) (k, instances) = instances"
proof (induction front arbitrary: k)
  case Nil
  then show ?case by (simp add: outer_loop_exhausted)
next
  case (Cons a front)
  have short: "length (cc_lines a) < minLines" using Cons.prems(1) by simp
  show ?case
  proof (cases "front @ rest = [] \<or> k + length (front @ rest) < maxComparisons")
    case True
    have "maxComparisons + length (all_pairs rest)
          \<le> (k + length (front @ rest)) + length (all_pairs (front @ rest))"
      using Cons.prems(2) by simp
    then have "outer_loop (front @ rest) (k + length (front @ rest), instances) = instances"
      using Cons.prems(1) by (intro Cons.IH) auto
    then show ?thesis using True by (simp add: inner_loop_short [OF short])
  next
    case False
    then show ?thesis by (simp add: inner_loop_short [OF short])
  qed
qed

lemma str_includes_set: "str_includes s sub \<Longrightarrow> set sub \<subseteq> set s"
  by (auto simp: str_includes_iff)

lemma example_filler_candidate: "is_candidate (example_filler i)"
proof -
  have "\<not> str_includes (replicate (Suc i) CHR ''x'') ''.test.''"
    using str_includes_set [of "replicate (Suc i) CHR ''x''" "''.test.''"] by auto
  moreover have "\<not> str_includes (replicate (Suc i) CHR ''x'') ''.spec.''"
    using str_includes_set [of "replicate (Suc i) CHR ''x''" "''.spec.''"] by auto
  ultimately show ?thesis
    by (simp add: is_candidate_def example_filler_def minLines_def)
qed

lemma example_filler_unreadable:
  "cached_content example_env empty_caches
     (path_join example_env ''repo'' (path (example_filler i))) = []"
  by (simp add: cached_content_def getCachedFileContent_def empty_caches_def example_env_def
      example_filler_def)

lemma example_crowd_candidates: "filter is_candidate example_crowd = example_crowd"
  by (auto simp: example_crowd_def example_filler_candidate example_twins_candidates)

lemma example_crowd_distinct: "distinct (map path example_crowd)"
proof -
  let ?f = "\<lambda>i. replicate (Suc i) CHR ''x''"
  have m: "map path example_crowd = map ?f [0..<448] @ [''a.ts'', ''b.ts'']"
    by (simp add: example_crowd_def example_filler_def example_twin_a_def example_twin_b_def
        comp_def)
  have "inj_on ?f (set [0..<448])"
    by (rule inj_onI) (simp only: replicate_eq_replicate, simp)
  then have "distinct (map ?f [0..<448])"
    by (simp add: distinct_map)
  moreover have "''a.ts'' \<notin> set (map ?f [0..<448])" "''b.ts'' \<notin> set (map ?f [0..<448])"
    by auto
  ultimately show ?thesis unfolding m by simp
qed

text \<open>
  C5, as the specification states it, fails once the comparison cap is reached. In the
  catalog below the two identical files are candidates, but they stand behind 448 other
  candidates; their pair would be comparison number 101025, the detector returns at
  comparison number 100000 and reports nothing.
\<close>

theorem identical_files_beyond_cap:
  "distinct (map path example_crowd) \<and>
   example_twin_a \<in> set example_crowd \<and> example_twin_b \<in> set example_crowd \<and>
   is_candidate example_twin_a \<and> is_candidate example_twin_b \<and>
   cached_content example_env empty_caches (path_join example_env ''repo'' (path example_twin_a))
     = example_text \<and>
   cached_content example_env empty_caches (path_join example_env ''repo'' (path example_twin_b))
     = example_text \<and>
   length (split_nl example_text) = 10 \<and>
   fst (detectDuplication example_env ''repo'' example_crowd empty_caches) = []"
proof -
  let ?mk = "\<lambda>c. make_content c
      (cached_content example_env empty_caches (path_join example_env ''repo'' (path c)))"
  let ?front = "map ?mk (map example_filler [0..<448])"
  let ?rest = "map ?mk [example_twin_a, example_twin_b]"
  have short: "\<forall>a \<in> set ?front. length (cc_lines a) < minLines"
    by (auto simp: example_filler_unreadable make_content_def minLines_def)
  have "length (?front @ ?rest) = 450" by simp
  then have "2 * length (all_pairs (?front @ ?rest)) = 450 * 449"
    using length_all_pairs [of "?front @ ?rest"] by simp
  moreover have "length (all_pairs ?rest) = 1" by simp
  ultimately have cap: "maxComparisons + length (all_pairs ?rest)
      \<le> 0 + length (all_pairs (?front @ ?rest))"
    by (simp add: maxComparisons_def)
  have "fst (detectDuplication example_env ''repo'' example_crowd empty_caches)
        = outer_loop (?front @ ?rest) (0, [])"
    unfolding detectDuplication_fst example_crowd_candidates
    by (simp add: example_crowd_def)
  also have "\<dots> = []" using short cap by (rule outer_loop_short)
  finally have "fst (detectDuplication example_env ''repo'' example_crowd empty_caches) = []" .
  moreover have "example_twin_a \<in> set example_crowd" "example_twin_b \<in> set example_crowd"
    by (simp_all add: example_crowd_def)
  ultimately show ?thesis
    using example_crowd_distinct example_twins_candidates example_read_a example_read_b
      example_text_lines by blast
qed

section \<open>Complexity analyzer\<close>

lemma analyzeComponentComplexity_fileCache:
  "fileCache (snd (analyzeComponentComplexity e repoPath c st)) =
   fileCache (snd (getCachedFileContent e (path_join e repoPath (path c)) st))"
  by (simp add: analyzeComponentComplexity_def Let_def split_beta split: option.splits)

lemma analyzeComponentComplexity_unreadable:
  assumes "readFile e (path_join e repoPath (path c)) = None"
    and "fileCache st (path_join e repoPath (path c)) = None \<or>
         fileCache st (path_join e repoPath (path c)) = Some []"
  shows "analyzeComponentComplexity e repoPath c st = ([], st)"
  using getCachedFileContent_unreadable [OF assms]
  by (simp add: analyzeComponentComplexity_def)

lemma analyzeComponentComplexity_file_path:
  "m \<in> set (fst (analyzeComponentComplexity e repoPath c st)) \<Longrightarrow> file_path m = path c"
  by (auto simp: analyzeComponentComplexity_def Let_def split_beta function_metric_def
      split: option.splits if_splits)

lemma analyze_batch_Cons:
  "analyze_batch e repoPath (c # cs) st =
     (fst (analyzeComponentComplexity e repoPath c st)
        # fst (analyze_batch e repoPath cs (snd (analyzeComponentComplexity e repoPath c st))),
      snd (analyze_batch e repoPath cs (snd (analyzeComponentComplexity e repoPath c st))))"
  by (simp add: split_beta)

lemma analyze_batch_append:
  "analyze_batch e repoPath (xs @ ys) st =
     (fst (analyze_batch e repoPath xs st)
        @ fst (analyze_batch e repoPath ys (snd (analyze_batch e repoPath xs st))),
      snd (analyze_batch e repoPath ys (snd (analyze_batch e repoPath xs st))))"
  by (induction xs arbitrary: st) (simp_all add: analyze_batch_Cons del: analyze_batch.simps(2))

text \<open>The batches do not show in the result: it is that of one pass over the catalog.\<close>

lemma calculateComplexity_unbatched:
  "calculateComplexity e repoPath components st =
     (concat (fst (analyze_batch e repoPath components st)),
      snd (analyze_batch e repoPath components st))"
proof (induction e repoPath components st rule: calculateComplexity.induct)
  case (1 e repoPath components st)
  show ?case
  proof (cases "components = []")
    case True
    then show ?thesis by (simp add: calculateComplexity.simps)
  next
    case False
    let ?b = "analyze_batch e repoPath (take batchSize components) st"
    have ih: "calculateComplexity e repoPath (drop batchSize components) (snd ?b) =
        (concat (fst (analyze_batch e repoPath (drop batchSize components) (snd ?b))),
         snd (analyze_batch e repoPath (drop batchSize components) (snd ?b)))"
      using "1.IH" [OF False, of "(fst ?b, snd ?b)" "fst ?b" "snd ?b"] by simp
    have "analyze_batch e repoPath components st =
          analyze_batch e repoPath (take batchSize components @ drop batchSize components) st"
      by simp
    also have "\<dots> = (fst ?b @ fst (analyze_batch e repoPath (drop batchSize components) (snd ?b)),
          snd (analyze_batch e repoPath (drop batchSize components) (snd ?b)))"
      by (rule analyze_batch_append)
    finally have whole: "analyze_batch e repoPath components st =
        (fst ?b @ fst (analyze_batch e repoPath (drop batchSize components) (snd ?b)),
          snd (analyze_batch e repoPath (drop batchSize components) (snd ?b)))" .
    show ?thesis
      using False
      by (subst calculateComplexity.simps) (simp add: split_beta Let_def ih whole)
  qed
qed

subsection \<open>A file that cannot be read\<close>

lemma unreadable_content:
  "readFile e p = None \<Longrightarrow> no_cached_text st p \<Longrightarrow> cached_content e st p = []"
  by (simp add: cached_content_def no_cached_text_def getCachedFileContent_unreadable)

lemma unreadable_stays_getCachedFileContent:
  "readFile e q = None \<Longrightarrow> no_cached_text st q \<Longrightarrow>
   no_cached_text (snd (getCachedFileContent e p st)) q"
  unfolding no_cached_text_def by (rule getCachedFileContent_unread)

lemma unreadable_stays_analyzeComponentComplexity:
  "readFile e q = None \<Longrightarrow> no_cached_text st q \<Longrightarrow>
   no_cached_text (snd (analyzeComponentComplexity e repoPath c st)) q"
  using unreadable_stays_getCachedFileContent [of e q st "path_join e repoPath (path c)"]
  by (simp add: no_cached_text_def analyzeComponentComplexity_fileCache)

lemma analyze_batch_without_unreadable:
  assumes "readFile e (path_join e repoPath p) = None"
  shows "no_cached_text st (path_join e repoPath p) \<Longrightarrow>
     concat (fst (analyze_batch e repoPath cs st)) =
       concat (fst (analyze_batch e repoPath (filter (\<lambda>d. path d \<noteq> p) cs) st)) \<and>
     snd (analyze_batch e repoPath cs st) =
       snd (analyze_batch e repoPath (filter (\<lambda>d. path d \<noteq> p) cs) st)"
proof (induction cs arbitrary: st)
  case Nil
  show ?case by simp
next
  case (Cons d cs)
  show ?case
  proof (cases "path d = p")
    case True
    have "analyzeComponentComplexity e repoPath d st = ([], st)"
      using assms Cons.prems unfolding True [symmetric] no_cached_text_def
      by (rule analyzeComponentComplexity_unreadable)
    then show ?thesis using True Cons.IH [OF Cons.prems]
      by (simp add: analyze_batch_Cons del: analyze_batch.simps(2))
  next
    case False
    have "no_cached_text (snd (analyzeComponentComplexity e repoPath d st)) (path_join e repoPath p)"
      using assms Cons.prems by (rule unreadable_stays_analyzeComponentComplexity)
    from Cons.IH [OF this] show ?thesis using False
      by (simp add: analyze_batch_Cons del: analyze_batch.simps(2))
  qed
qed

lemma analyze_batch_file_path:
  "m \<in> set (concat (fst (analyze_batch e repoPath cs st))) \<Longrightarrow> file_path m \<in> path ` set cs"
proof (induction cs arbitrary: st)
  case Nil
  then show ?case by simp
next
  case (Cons d cs)
  then show ?case
    by (auto simp: analyze_batch_Cons image_iff simp del: analyze_batch.simps(2)
        dest: analyzeComponentComplexity_file_path)
qed

lemma inner_loop_instances:
  "inner_loop a bs (k, instances) = Inl r \<or> inner_loop a bs (k, instances) = Inr (k', r) \<Longrightarrow>
   i \<in> set r \<Longrightarrow> i \<in> set instances \<or> (\<exists>b \<in> set bs. i \<in> set (compare_pair a b []))"
proof (induction bs arbitrary: k instances)
  case Nil
  then show ?case by auto
next
  case (Cons b bs)
  show ?case
  proof (cases "maxComparisons \<le> k + 1")
    case True
    then show ?thesis using Cons.prems by auto
  next
    case False
    then have "inner_loop a bs (k + 1, compare_pair a b instances) = Inl r \<or>
               inner_loop a bs (k + 1, compare_pair a b instances) = Inr (k', r)"
      using Cons.prems(1) by simp
    from Cons.IH [OF this Cons.prems(2)]
    have "i \<in> set (compare_pair a b instances) \<or> (\<exists>b \<in> set bs. i \<in> set (compare_pair a b []))" .
    then show ?thesis
      by (subst (asm) compare_pair_append) auto
  qed
qed

lemma outer_loop_instances:
  "i \<in> set (outer_loop ccs (k, instances)) \<Longrightarrow>
   i \<in> set instances \<or> (\<exists>a \<in> set ccs. \<exists>b \<in> set ccs. i \<in> set (compare_pair a b []))"
proof (induction ccs arbitrary: k instances)
  case Nil
  then show ?case by simp
next
  case (Cons a rest)
  show ?case
  proof (cases "inner_loop a rest (k, instances)")
    case (Inl r)
    then have "i \<in> set r" using Cons.prems by simp
    then show ?thesis using inner_loop_instances [of a rest k instances r _ i] Inl by auto
  next
    case (Inr st')
    obtain k' r where st': "st' = (k', r)" by (cases st')
    have "i \<in> set (outer_loop rest (k', r))" using Cons.prems Inr st' by simp
    from Cons.IH [OF this] consider "i \<in> set r"
      | "\<exists>a \<in> set rest. \<exists>b \<in> set rest. i \<in> set (compare_pair a b [])" by blast
    then show ?thesis
    proof cases
      case 1
      then show ?thesis using inner_loop_instances [of a rest k instances r k' i] Inr st' by auto
    next
      case 2
      then show ?thesis by auto
    qed
  qed
qed

lemma compare_pair_long:
  "i \<in> set (compare_pair a b []) \<Longrightarrow>
   minLines \<le> length (cc_lines a) \<and> minLines \<le> length (cc_lines b)"
  by (auto simp: compare_pair_def Let_def split: if_splits)

lemma read_contents_Cons:
  "read_contents e repoPath (c # cs) st =
     (make_content c (fst (getCachedFileContent e (path_join e repoPath (path c)) st))
        # fst (read_contents e repoPath cs
                 (snd (getCachedFileContent e (path_join e repoPath (path c)) st))),
      snd (read_contents e repoPath cs
             (snd (getCachedFileContent e (path_join e repoPath (path c)) st))))"
  by (simp add: split_beta Let_def)

lemma unreadable_stays_read_contents:
  "readFile e q = None \<Longrightarrow> no_cached_text st q \<Longrightarrow>
   no_cached_text (snd (read_contents e repoPath cs st)) q"
proof (induction cs arbitrary: st)
  case Nil
  then show ?case by simp
next
  case (Cons c cs)
  have "no_cached_text (snd (getCachedFileContent e (path_join e repoPath (path c)) st)) q"
    using Cons.prems by (rule unreadable_stays_getCachedFileContent)
  from Cons.IH [OF Cons.prems(1) this] show ?case
    by (simp add: read_contents_Cons del: read_contents.simps(2))
qed

lemma read_contents_without_unreadable:
  assumes "readFile e (path_join e repoPath p) = None"
  shows "no_cached_text st (path_join e repoPath p) \<Longrightarrow>
     snd (read_contents e repoPath cs st) =
     snd (read_contents e repoPath (filter (\<lambda>d. path d \<noteq> p) cs) st)"
proof (induction cs arbitrary: st)
  case Nil
  show ?case by simp
next
  case (Cons d cs)
  show ?case
  proof (cases "path d = p")
    case True
    have "getCachedFileContent e (path_join e repoPath (path d)) st = ([], st)"
      using assms Cons.prems unfolding True [symmetric] no_cached_text_def
      by (rule getCachedFileContent_unreadable)
    then show ?thesis using True Cons.IH [OF Cons.prems]
      by (simp add: read_contents_Cons del: read_contents.simps(2))
  next
    case False
    have "no_cached_text (snd (getCachedFileContent e (path_join e repoPath (path d)) st))
            (path_join e repoPath p)"
      using assms Cons.prems by (rule unreadable_stays_getCachedFileContent)
    from Cons.IH [OF this] show ?thesis using False
      by (simp add: read_contents_Cons del: read_contents.simps(2))
  qed
qed

lemma detectDuplication_snd:
  "snd (detectDuplication e repoPath components st) =
   snd (read_contents e repoPath (filter is_candidate components) st)"
  by (simp add: detectDuplication_def Let_def split_beta)

lemma detectDuplication_without_unreadable_snd:
  assumes "readFile e (path_join e repoPath p) = None"
    and "no_cached_text st (path_join e repoPath p)"
  shows "snd (detectDuplication e repoPath (filter (\<lambda>d. path d \<noteq> p) components) st) =
         snd (detectDuplication e repoPath components st)"
proof -
  have "filter is_candidate (filter (\<lambda>d. path d \<noteq> p) components) =
        filter (\<lambda>d. path d \<noteq> p) (filter is_candidate components)"
    by (simp add: conj_commute)
  then show ?thesis
    unfolding detectDuplication_snd
    using read_contents_without_unreadable [OF assms, of "filter is_candidate components"]
    by simp
qed

lemma unreadable_not_in_duplication:
  assumes "readFile e (path_join e repoPath (path c)) = None"
    and "no_cached_text st (path_join e repoPath (path c))"
    and "inst \<in> set (fst (detectDuplication e repoPath components st))"
  shows "path c \<notin> set (files inst)"
proof -
  let ?mk = "\<lambda>d. make_content d (cached_content e st (path_join e repoPath (path d)))"
  let ?ccs = "map ?mk (filter is_candidate components)"
  have "inst \<in> set (outer_loop ?ccs (0, []))"
    using assms(3) unfolding detectDuplication_fst .
  then obtain x y where x: "x \<in> set ?ccs" and y: "y \<in> set ?ccs"
    and i: "inst \<in> set (compare_pair x y [])"
    using outer_loop_instances [of inst ?ccs 0 "[]"] by auto
  have empty: "cached_content e st (path_join e repoPath (path c)) = []"
    using assms(1,2) by (rule unreadable_content)
  have long: "minLines \<le> length (cc_lines x)" "minLines \<le> length (cc_lines y)"
    using compare_pair_long [OF i] by simp_all
  have other: "path (cc_component z) \<noteq> path c"
    if z: "z \<in> set ?ccs" and l: "minLines \<le> length (cc_lines z)" for z
  proof
    assume same: "path (cc_component z) = path c"
    obtain d where "z = ?mk d" using z by auto
    then have "cc_lines z = split_nl []"
      using same empty by (simp add: make_content_def)
    then show False using l by (simp add: minLines_def)
  qed
  have "files inst = [path (cc_component x), path (cc_component y)]"
    using i by (rule compare_pair_files)
  then show ?thesis using other [OF x long(1)] other [OF y long(2)] by auto
qed

lemma calculateComplexity_without_unreadable:
  assumes "readFile e (path_join e repoPath p) = None"
    and "no_cached_text st (path_join e repoPath p)"
  shows "calculateComplexity e repoPath (filter (\<lambda>d. path d \<noteq> p) components) st =
         calculateComplexity e repoPath components st"
  using analyze_batch_without_unreadable [OF assms, of components]
  by (simp add: calculateComplexity_unbatched)

lemma calculateComplexity_file_path:
  "m \<in> set (fst (calculateComplexity e repoPath components st)) \<Longrightarrow>
   file_path m \<in> path ` set components"
  using analyze_batch_file_path [of m e repoPath components st]
  by (simp add: calculateComplexity_unbatched)

lemma all_pairs_filter:
  "all_pairs (filter Q xs) = filter (\<lambda>(x, y). Q x \<and> Q y) (all_pairs xs)"
  by (induction xs) (simp_all add: filter_map comp_def)

lemma concat_map_filter_empty:
  "\<forall>p \<in> set ps. \<not> Q p \<longrightarrow> f p = [] \<Longrightarrow> concat (map f (filter Q ps)) = concat (map f ps)"
  by (induction ps) auto

lemma pairs_mono:
  fixes m n :: nat
  shows "m \<le> n \<Longrightarrow> m * (m - 1) \<le> n * (n - 1)"
  by (intro mult_le_mono) simp_all

lemma detectDuplication_without_unreadable_fst:
  assumes unreadable: "readFile e (path_join e repoPath p) = None"
    and uncached: "no_cached_text st (path_join e repoPath p)"
    and cap: "length (filter is_candidate components)
               * (length (filter is_candidate components) - 1) < 2 * maxComparisons"
  shows "fst (detectDuplication e repoPath (filter (\<lambda>d. path d \<noteq> p) components) st) =
         fst (detectDuplication e repoPath components st)"
proof -
  let ?mk = "\<lambda>d. make_content d (cached_content e st (path_join e repoPath (path d)))"
  let ?cands = "filter is_candidate components"
  let ?Q = "\<lambda>x. path (cc_component x) \<noteq> p"
  let ?f = "\<lambda>(x, y). compare_pair x y []"
  have comm: "filter is_candidate (filter (\<lambda>d. path d \<noteq> p) components) =
        filter (\<lambda>d. path d \<noteq> p) ?cands"
    by (simp add: conj_commute)
  have "length (filter (\<lambda>d. path d \<noteq> p) ?cands) \<le> length ?cands"
    by (rule length_filter_le)
  then have "length (filter (\<lambda>d. path d \<noteq> p) ?cands)
        * (length (filter (\<lambda>d. path d \<noteq> p) ?cands) - 1) \<le> length ?cands * (length ?cands - 1)"
    by (rule pairs_mono)
  then have cap': "length (filter is_candidate (filter (\<lambda>d. path d \<noteq> p) components))
        * (length (filter is_candidate (filter (\<lambda>d. path d \<noteq> p) components)) - 1)
        < 2 * maxComparisons"
    unfolding comm using cap by simp
  have mk: "map ?mk (filter (\<lambda>d. path d \<noteq> p) ?cands) = filter ?Q (map ?mk ?cands)"
    by (simp add: filter_map comp_def make_content_def)
  have empty: "cached_content e st (path_join e repoPath p) = []"
    using unreadable uncached by (rule unreadable_content)
  have short: "length (cc_lines z) < minLines"
    if zin: "z \<in> set (map ?mk ?cands)" and nq: "\<not> ?Q z" for z
  proof -
    obtain d where "z = ?mk d" using zin by auto
    then have "cc_lines z = split_nl []" using nq empty by (simp add: make_content_def)
    then show ?thesis by (simp add: minLines_def)
  qed
  have skipped: "\<forall>q \<in> set (all_pairs (map ?mk ?cands)).
      \<not> (case q of (x, y) \<Rightarrow> ?Q x \<and> ?Q y) \<longrightarrow> ?f q = []"
  proof (intro ballI impI)
    fix q
    assume q: "q \<in> set (all_pairs (map ?mk ?cands))"
      and n: "\<not> (case q of (x, y) \<Rightarrow> ?Q x \<and> ?Q y)"
    obtain x y where xy: "q = (x, y)" by (cases q)
    have "(x, y) \<in> set (all_pairs (map ?mk ?cands))" using q unfolding xy .
    from set_all_pairs [OF this]
    have "x \<in> set (map ?mk ?cands)" "y \<in> set (map ?mk ?cands)" by simp_all
    then have "length (cc_lines x) < minLines \<or> length (cc_lines y) < minLines"
      using n short unfolding xy by auto
    then show "?f q = []"
      unfolding xy using compare_pair_short_left compare_pair_short_right by auto
  qed
  have "concat (map ?f (filter (\<lambda>(x, y). ?Q x \<and> ?Q y) (all_pairs (map ?mk ?cands))))
        = concat (map ?f (all_pairs (map ?mk ?cands)))"
    using skipped by (rule concat_map_filter_empty)
  then show ?thesis
    unfolding detectDuplication_below_cap [OF cap] detectDuplication_below_cap [OF cap']
      comm mk all_pairs_filter .
qed

lemma analyzeArchitecture_fields:
  "\<exists>a. fst (analyzeArchitecture e components repoPath st) = Some a \<and>
       coupling a = calculateCoupling components \<and>
       duplication a = fst (detectDuplication e repoPath components st) \<and>
       complexity a = fst (calculateComplexity e repoPath components
                            (snd (detectDuplication e repoPath components st))) \<and>
       detectCircularDependencies (Suc (length components)) components
         = Some (circularDependencies a) \<and>
       healthScore a = calculateHealthScore (metrics.truncate a)"
proof -
  obtain cycles where "detectCircularDependencies (Suc (length components)) components = Some cycles"
    using detectCircularDependencies_returns [of components "Suc (length components)"] by auto
  then show ?thesis
    by (simp add: analyzeArchitecture_def Let_def split_beta metrics.truncate_def)
qed

lemma analyzeArchitecture_snd:
  "snd (analyzeArchitecture e components repoPath st) =
   snd (calculateComplexity e repoPath components
          (snd (detectDuplication e repoPath components st)))"
  by (simp add: analyzeArchitecture_def Let_def split_beta)

text \<open>
  C9, as the code has it. A component whose file cannot be read, while the cache holds no
  text for it (as in a first invocation, or after the cache has been cleared), has the
  empty string as its content; the complexity engine returns no metric for it and leaves
  the cache as it was; the run as a whole returns a result, in which no duplication
  instance and no complexity metric names the component; and the other components are
  analysed as if the component were not in the catalog: the complexity metrics are the
  same, and so are the duplication instances as long as the comparison cap is not
  reached.
\<close>

theorem unreadable_file_is_skipped:
  assumes unreadable: "readFile e (path_join e repoPath (path c)) = None"
    and uncached: "no_cached_text st (path_join e repoPath (path c))"
  shows "cached_content e st (path_join e repoPath (path c)) = [] \<and>
         analyzeComponentComplexity e repoPath c st = ([], st) \<and>
         (\<exists>r r'. fst (analyzeArchitecture e components repoPath st) = Some r \<and>
            (\<forall>inst \<in> set (duplication r). path c \<notin> set (files inst)) \<and>
            (\<forall>m \<in> set (complexity r). file_path m \<noteq> path c) \<and>
            fst (analyzeArchitecture e (filter (\<lambda>d. path d \<noteq> path c) components) repoPath st)
              = Some r' \<and>
            complexity r' = complexity r \<and>
            (length (filter is_candidate components)
               * (length (filter is_candidate components) - 1) < 2 * maxComparisons
             \<longrightarrow> duplication r' = duplication r))"
proof -
  let ?others = "filter (\<lambda>d. path d \<noteq> path c) components"
  let ?st1 = "snd (detectDuplication e repoPath components st)"
  obtain r where r: "fst (analyzeArchitecture e components repoPath st) = Some r"
    and dr: "duplication r = fst (detectDuplication e repoPath components st)"
    and cr: "complexity r = fst (calculateComplexity e repoPath components ?st1)"
    using analyzeArchitecture_fields [of e components repoPath st] by blast
  obtain r' where r': "fst (analyzeArchitecture e ?others repoPath st) = Some r'"
    and dr': "duplication r' = fst (detectDuplication e repoPath ?others st)"
    and cr': "complexity r' = fst (calculateComplexity e repoPath ?others
                (snd (detectDuplication e repoPath ?others st)))"
    using analyzeArchitecture_fields [of e ?others repoPath st] by blast
  have 1: "cached_content e st (path_join e repoPath (path c)) = []"
    using unreadable uncached by (rule unreadable_content)
  have 2: "analyzeComponentComplexity e repoPath c st = ([], st)"
    using unreadable uncached unfolding no_cached_text_def
    by (rule analyzeComponentComplexity_unreadable)
  have 3: "\<forall>inst \<in> set (duplication r). path c \<notin> set (files inst)"
    unfolding dr using unreadable_not_in_duplication [OF unreadable uncached] by blast
  have st1: "no_cached_text ?st1 (path_join e repoPath (path c))"
    unfolding detectDuplication_snd
    using unreadable uncached by (rule unreadable_stays_read_contents)
  have same_state: "snd (detectDuplication e repoPath ?others st) = ?st1"
    using unreadable uncached by (rule detectDuplication_without_unreadable_snd)
  have 5: "complexity r' = complexity r"
    unfolding cr cr' same_state
    using calculateComplexity_without_unreadable [OF unreadable st1] by simp
  have 4: "\<forall>m \<in> set (complexity r). file_path m \<noteq> path c"
  proof
    fix m
    assume "m \<in> set (complexity r)"
    then have "m \<in> set (fst (calculateComplexity e repoPath ?others
                (snd (detectDuplication e repoPath ?others st))))"
      using 5 cr' by simp
    from calculateComplexity_file_path [OF this] show "file_path m \<noteq> path c" by auto
  qed
  have 6: "length (filter is_candidate components)
               * (length (filter is_candidate components) - 1) < 2 * maxComparisons
             \<longrightarrow> duplication r' = duplication r"
    unfolding dr dr'
    using detectDuplication_without_unreadable_fst [OF unreadable uncached] by blast
  show ?thesis using 1 2 r 3 4 r' 5 6 by blast
qed

theorem unreadable_file_is_skipped_witness:
  "readFile example_env_deleted (path_join example_env_deleted ''repo'' (path example_twin_b))
     = None \<and>
   no_cached_text (empty_caches :: unit caches)
     (path_join example_env_deleted ''repo'' (path example_twin_b)) \<and>
   cached_content example_env_deleted empty_caches
     (path_join example_env_deleted ''repo'' (path example_twin_b)) = [] \<and>
   analyzeComponentComplexity example_env_deleted ''repo'' example_twin_b empty_caches
     = ([], empty_caches) \<and>
   (\<exists>r. fst (analyzeArchitecture example_env_deleted example_twins ''repo'' empty_caches) = Some r \<and>
      list_all (\<lambda>inst. path example_twin_b \<notin> set (files inst)) (duplication r) \<and>
      list_all (\<lambda>m. file_path m \<noteq> path example_twin_b) (complexity r))"
proof -
  have u: "readFile example_env_deleted
             (path_join example_env_deleted ''repo'' (path example_twin_b)) = None"
    by (simp add: example_env_deleted_def example_env_def example_twin_b_def)
  have n: "no_cached_text (empty_caches :: unit caches)
             (path_join example_env_deleted ''repo'' (path example_twin_b))"
    by (simp add: no_cached_text_def empty_caches_def)
  show ?thesis
    using unreadable_file_is_skipped [OF u n, of example_twins] u n
    unfolding list_all_iff by blast
qed

section \<open>The cache across invocations\<close>

lemma cached_content_cong:
  "fileCache st = fileCache st' \<Longrightarrow> cached_content e st q = cached_content e st' q"
  by (auto simp: cached_content_def getCachedFileContent_def Let_def split: option.splits)

lemma getCachedFileContent_stores:
  "cached_content e st p \<noteq> [] \<Longrightarrow>
   fileCache (snd (getCachedFileContent e p st)) p = Some (cached_content e st p)"
  by (auto simp: cached_content_def getCachedFileContent_def Let_def split: option.splits)

lemma analyzeComponentComplexity_keeps:
  "fileCache st q = Some content \<Longrightarrow> content \<noteq> [] \<Longrightarrow>
   fileCache (snd (analyzeComponentComplexity e repoPath c st)) q = Some content"
  unfolding analyzeComponentComplexity_fileCache by (rule getCachedFileContent_keeps)

lemma analyzeComponentComplexity_stable:
  "cached_content e (snd (analyzeComponentComplexity e repoPath c st)) q = cached_content e st q"
  using cached_content_cong [OF analyzeComponentComplexity_fileCache, of e e repoPath c st q]
  by (simp add: getCachedFileContent_stable)

lemma analyzeComponentComplexity_stores:
  "cached_content e st (path_join e repoPath (path c)) \<noteq> [] \<Longrightarrow>
   fileCache (snd (analyzeComponentComplexity e repoPath c st)) (path_join e repoPath (path c))
     = Some (cached_content e st (path_join e repoPath (path c)))"
  unfolding analyzeComponentComplexity_fileCache by (rule getCachedFileContent_stores)

lemma analyzeComponentComplexity_astCache_keeps:
  "astCache st q = Some ast \<Longrightarrow>
   astCache (snd (analyzeComponentComplexity e repoPath c st)) q = Some ast"
  using getCachedFileContent_astCache [of e "path_join e repoPath (path c)" st]
  by (auto simp: analyzeComponentComplexity_def Let_def split_beta split: option.splits)

lemma analyze_batch_keeps:
  "fileCache st q = Some content \<Longrightarrow> content \<noteq> [] \<Longrightarrow>
   fileCache (snd (analyze_batch e repoPath cs st)) q = Some content"
proof (induction cs arbitrary: st)
  case Nil
  then show ?case by simp
next
  case (Cons c cs)
  have "fileCache (snd (analyzeComponentComplexity e repoPath c st)) q = Some content"
    using Cons.prems by (rule analyzeComponentComplexity_keeps)
  from Cons.IH [OF this Cons.prems(2)] show ?case
    by (simp add: analyze_batch_Cons del: analyze_batch.simps(2))
qed

lemma analyze_batch_astCache_keeps:
  "astCache st q = Some ast \<Longrightarrow> astCache (snd (analyze_batch e repoPath cs st)) q = Some ast"
proof (induction cs arbitrary: st)
  case Nil
  then show ?case by simp
next
  case (Cons c cs)
  have "astCache (snd (analyzeComponentComplexity e repoPath c st)) q = Some ast"
    using Cons.prems by (rule analyzeComponentComplexity_astCache_keeps)
  from Cons.IH [OF this] show ?case
    by (simp add: analyze_batch_Cons del: analyze_batch.simps(2))
qed

lemma analyze_batch_stores:
  "c \<in> set cs \<Longrightarrow> cached_content e st (path_join e repoPath (path c)) \<noteq> [] \<Longrightarrow>
   fileCache (snd (analyze_batch e repoPath cs st)) (path_join e repoPath (path c))
     = Some (cached_content e st (path_join e repoPath (path c)))"
proof (induction cs arbitrary: st)
  case Nil
  then show ?case by simp
next
  case (Cons d cs)
  let ?st1 = "snd (analyzeComponentComplexity e repoPath d st)"
  let ?p = "path_join e repoPath (path c)"
  have same: "cached_content e ?st1 ?p = cached_content e st ?p"
    by (rule analyzeComponentComplexity_stable)
  show ?case
  proof (cases "c \<in> set cs")
    case True
    have "cached_content e ?st1 ?p \<noteq> []" using Cons.prems(2) same by simp
    from Cons.IH [OF True this] show ?thesis
      by (simp add: analyze_batch_Cons same del: analyze_batch.simps(2))
  next
    case False
    then have "c = d" using Cons.prems(1) by simp
    then have "fileCache ?st1 ?p = Some (cached_content e st ?p)"
      using analyzeComponentComplexity_stores [of e st repoPath d] Cons.prems(2) by simp
    then have "fileCache (snd (analyze_batch e repoPath cs ?st1)) ?p
        = Some (cached_content e st ?p)"
      using Cons.prems(2) by (rule analyze_batch_keeps)
    then show ?thesis
      by (simp add: analyze_batch_Cons del: analyze_batch.simps(2))
  qed
qed

lemma detectDuplication_keeps:
  "fileCache st q = Some content \<Longrightarrow> content \<noteq> [] \<Longrightarrow>
   fileCache (snd (detectDuplication e repoPath components st)) q = Some content"
  unfolding detectDuplication_snd by (rule read_contents_keeps)

lemma detectDuplication_stable:
  "cached_content e (snd (detectDuplication e repoPath components st)) q = cached_content e st q"
  unfolding detectDuplication_snd by (rule read_contents_stable)

lemma detectDuplication_astCache:
  "astCache (snd (detectDuplication e repoPath components st)) = astCache st"
  unfolding detectDuplication_snd by (rule read_contents_astCache)

lemma analyzeArchitecture_keeps:
  "fileCache st q = Some content \<Longrightarrow> content \<noteq> [] \<Longrightarrow>
   fileCache (snd (analyzeArchitecture e components repoPath st)) q = Some content"
  unfolding analyzeArchitecture_snd calculateComplexity_unbatched snd_conv
  by (intro analyze_batch_keeps detectDuplication_keeps)

lemma analyzeArchitecture_astCache_keeps:
  "astCache st q = Some ast \<Longrightarrow>
   astCache (snd (analyzeArchitecture e components repoPath st)) q = Some ast"
  unfolding analyzeArchitecture_snd calculateComplexity_unbatched snd_conv
  by (intro analyze_batch_astCache_keeps) (simp add: detectDuplication_astCache)

lemma analyzeArchitecture_stores:
  assumes "c \<in> set components"
    and "cached_content e st (path_join e repoPath (path c)) \<noteq> []"
  shows "fileCache (snd (analyzeArchitecture e components repoPath st))
           (path_join e repoPath (path c))
         = Some (cached_content e st (path_join e repoPath (path c)))"
proof -
  let ?st1 = "snd (detectDuplication e repoPath components st)"
  have same: "cached_content e ?st1 (path_join e repoPath (path c))
      = cached_content e st (path_join e repoPath (path c))"
    by (rule detectDuplication_stable)
  then have "cached_content e ?st1 (path_join e repoPath (path c)) \<noteq> []"
    using assms(2) by simp
  from analyze_batch_stores [OF assms(1) this] show ?thesis
    unfolding analyzeArchitecture_snd calculateComplexity_unbatched snd_conv same .
qed

lemma cached_content_hit:
  "fileCache st q = Some content \<Longrightarrow> content \<noteq> [] \<Longrightarrow> cached_content e st q = content"
  by (simp add: cached_content_def getCachedFileContent_hit)


subsection \<open>Two invocations on the example files\<close>

lemma example_text_nonempty: "example_text \<noteq> []"
  by (simp add: example_text_def)

lemma example_deleted_path_join: "path_join example_env_deleted = path_join example_env"
  by (simp add: example_env_deleted_def)

lemma example_first_run_caches:
  "fileCache (snd (analyzeArchitecture example_env example_twins ''repo'' empty_caches))
     (path_join example_env ''repo'' (path example_twin_a)) = Some example_text"
  "fileCache (snd (analyzeArchitecture example_env example_twins ''repo'' empty_caches))
     (path_join example_env ''repo'' (path example_twin_b)) = Some example_text"
proof -
  have a: "example_twin_a \<in> set example_twins" and b: "example_twin_b \<in> set example_twins"
    by (simp_all add: example_twins_def)
  show "fileCache (snd (analyzeArchitecture example_env example_twins ''repo'' empty_caches))
     (path_join example_env ''repo'' (path example_twin_a)) = Some example_text"
    using analyzeArchitecture_stores [OF a, of example_env empty_caches "''repo''"]
    by (simp add: example_read_a example_text_nonempty)
  show "fileCache (snd (analyzeArchitecture example_env example_twins ''repo'' empty_caches))
     (path_join example_env ''repo'' (path example_twin_b)) = Some example_text"
    using analyzeArchitecture_stores [OF b, of example_env empty_caches "''repo''"]
    by (simp add: example_read_b example_text_nonempty)
qed

lemma example_second_run_duplication:
  "\<exists>inst. instances_for (path example_twin_a) (path example_twin_b)
      (fst (detectDuplication example_env_deleted ''repo'' example_twins
         (snd (analyzeArchitecture example_env example_twins ''repo'' empty_caches)))) = [inst]
      \<and> similarity_of inst = 1"
proof -
  let ?st1 = "snd (analyzeArchitecture example_env example_twins ''repo'' empty_caches)"
  have d: "distinct (map path example_twins)"
    by (simp add: example_twins_def example_twin_a_def example_twin_b_def)
  have c: "length (filter is_candidate example_twins)
           * (length (filter is_candidate example_twins) - 1) < 2 * maxComparisons"
    by (simp add: example_twins_def example_twins_candidates maxComparisons_def)
  have a: "example_twin_a \<in> set example_twins" and b: "example_twin_b \<in> set example_twins"
    by (simp_all add: example_twins_def)
  have ab: "path example_twin_a \<noteq> path example_twin_b"
    by (simp add: example_twin_a_def example_twin_b_def)
  have ta: "cached_content example_env_deleted ?st1
              (path_join example_env_deleted ''repo'' (path example_twin_a)) = example_text"
    unfolding example_deleted_path_join
    using example_first_run_caches(1) example_text_nonempty by (rule cached_content_hit)
  have tb: "cached_content example_env_deleted ?st1
              (path_join example_env_deleted ''repo'' (path example_twin_b)) = example_text"
    unfolding example_deleted_path_join
    using example_first_run_caches(2) example_text_nonempty by (rule cached_content_hit)
  have l: "10 \<le> length (split_nl example_text)" by (simp add: example_text_lines)
  show ?thesis
    by (rule identical_pair_once [OF d c a example_twins_candidates(1) b
          example_twins_candidates(2) ab ta tb l])
qed

lemma example_deleted_unreadable:
  "readFile example_env_deleted (path_join example_env_deleted ''repo'' (path example_twin_b))
     = None"
  by (simp add: example_env_deleted_def example_env_def example_twin_b_def)

lemma example_fresh_run_duplication:
  "fst (detectDuplication example_env_deleted ''repo'' example_twins empty_caches) = []"
proof -
  have c: "length (filter is_candidate example_twins)
           * (length (filter is_candidate example_twins) - 1) < 2 * maxComparisons"
    by (simp add: example_twins_def example_twins_candidates maxComparisons_def)
  have "no_cached_text (empty_caches :: unit caches)
          (path_join example_env_deleted ''repo'' (path example_twin_b))"
    by (simp add: no_cached_text_def empty_caches_def)
  then have "cached_content example_env_deleted empty_caches
      (path_join example_env_deleted ''repo'' (path example_twin_b)) = []"
    using example_deleted_unreadable by (intro unreadable_content)
  then have "length (cc_lines (make_content example_twin_b
      (cached_content example_env_deleted empty_caches
         (path_join example_env_deleted ''repo'' (path example_twin_b))))) < minLines"
    by (simp add: make_content_def minLines_def)
  then show ?thesis
    unfolding detectDuplication_below_cap [OF c]
    by (simp add: example_twins_def example_twins_candidates compare_pair_short_right)
qed


text \<open>
  C9, as the specification states it, fails for a file that was read by an earlier
  invocation and has been deleted since: the read would fail, but the cache still holds
  the old text, no read is attempted, and the duplication engine reports the deleted
  file as a duplicate.
\<close>

theorem deleted_file_still_reported:
  "readFile example_env_deleted (path_join example_env_deleted ''repo'' (path example_twin_b))
     = None \<and>
   cached_content example_env_deleted
     (snd (analyzeArchitecture example_env example_twins ''repo'' empty_caches))
     (path_join example_env_deleted ''repo'' (path example_twin_b)) = example_text \<and>
   (\<exists>inst. instances_for (path example_twin_a) (path example_twin_b)
      (fst (detectDuplication example_env_deleted ''repo'' example_twins
         (snd (analyzeArchitecture example_env example_twins ''repo'' empty_caches)))) = [inst])"
proof -
  have "cached_content example_env_deleted
     (snd (analyzeArchitecture example_env example_twins ''repo'' empty_caches))
     (path_join example_env_deleted ''repo'' (path example_twin_b)) = example_text"
    unfolding example_deleted_path_join
    using example_first_run_caches(2) example_text_nonempty by (rule cached_content_hit)
  then show ?thesis
    using example_deleted_unreadable example_second_run_duplication by blast
qed

text \<open>
  C8, as the code has it. The two caches are state of the module and outlive an
  invocation: \<^verbatim>\<open>analyzeArchitecture\<close> starts from the caches as they are, keeps every
  entry with a non-empty text and every parsed tree, and a read after the run, whatever
  the file system holds by then, returns the kept text and the text that the run read
  for any component with a non-empty file. The caches are empty only after
  \<^verbatim>\<open>clearAnalysisCache\<close>, which \<^verbatim>\<open>analyzeArchitecture\<close> does not call.
\<close>

theorem cache_outlives_invocation:
  "(fileCache st q = Some content \<and> content \<noteq> [] \<longrightarrow>
      fileCache (snd (analyzeArchitecture e components repoPath st)) q = Some content \<and>
      cached_content e' (snd (analyzeArchitecture e components repoPath st)) q = content) \<and>
   (astCache st q = Some ast \<longrightarrow>
      astCache (snd (analyzeArchitecture e components repoPath st)) q = Some ast) \<and>
   (c \<in> set components \<and> cached_content e st (path_join e repoPath (path c)) \<noteq> [] \<longrightarrow>
      cached_content e' (snd (analyzeArchitecture e components repoPath st))
        (path_join e repoPath (path c))
      = cached_content e st (path_join e repoPath (path c))) \<and>
   fileCache (clearAnalysisCache st) = Map.empty \<and>
   astCache (clearAnalysisCache st) = Map.empty"
proof -
  have 1: "fileCache (snd (analyzeArchitecture e components repoPath st)) q = Some content \<and>
      cached_content e' (snd (analyzeArchitecture e components repoPath st)) q = content"
    if "fileCache st q = Some content" "content \<noteq> []"
    using analyzeArchitecture_keeps [OF that] that(2) by (simp add: cached_content_hit)
  have 2: "astCache (snd (analyzeArchitecture e components repoPath st)) q = Some ast"
    if "astCache st q = Some ast"
    using that by (rule analyzeArchitecture_astCache_keeps)
  have 3: "cached_content e' (snd (analyzeArchitecture e components repoPath st))
        (path_join e repoPath (path c))
      = cached_content e st (path_join e repoPath (path c))"
    if "c \<in> set components" "cached_content e st (path_join e repoPath (path c)) \<noteq> []"
    using analyzeArchitecture_stores [OF that] that(2) by (rule cached_content_hit)
  have 4: "fileCache (clearAnalysisCache st) = Map.empty"
    "astCache (clearAnalysisCache st) = Map.empty"
    by (simp_all add: clearAnalysisCache_def)
  show ?thesis using 1 2 3 4 by blast
qed

theorem cache_outlives_invocation_witness:
  "fileCache example_caches ''repo/b.ts'' = Some example_text \<and> example_text \<noteq> [] \<and>
   astCache example_caches ''repo/b.ts'' = Some () \<and>
   example_twin_a \<in> set example_twins \<and>
   cached_content example_env_deleted example_caches
     (path_join example_env_deleted ''repo'' (path example_twin_a)) \<noteq> [] \<and>
   fileCache (snd (analyzeArchitecture example_env_deleted example_twins ''repo'' example_caches))
     ''repo/b.ts'' = Some example_text \<and>
   cached_content example_env_deleted
     (snd (analyzeArchitecture example_env_deleted example_twins ''repo'' example_caches))
     ''repo/b.ts'' = example_text \<and>
   astCache (snd (analyzeArchitecture example_env_deleted example_twins ''repo'' example_caches))
     ''repo/b.ts'' = Some () \<and>
   cached_content example_env_deleted
     (snd (analyzeArchitecture example_env_deleted example_twins ''repo'' example_caches))
     (path_join example_env_deleted ''repo'' (path example_twin_a))
   = cached_content example_env_deleted example_caches
       (path_join example_env_deleted ''repo'' (path example_twin_a))"
proof -
  have f: "fileCache example_caches ''repo/b.ts'' = Some example_text"
    and t: "astCache example_caches ''repo/b.ts'' = Some ()"
    by (simp_all add: example_caches_def)
  have a: "example_twin_a \<in> set example_twins" by (simp add: example_twins_def)
  have "cached_content example_env_deleted example_caches
     (path_join example_env_deleted ''repo'' (path example_twin_a)) = example_text"
    by (simp add: cached_content_def getCachedFileContent_def example_caches_def
        example_env_deleted_def example_env_def example_twin_a_def)
  then have r: "cached_content example_env_deleted example_caches
     (path_join example_env_deleted ''repo'' (path example_twin_a)) \<noteq> []"
    using example_text_nonempty by simp
  show ?thesis
    using cache_outlives_invocation [of example_caches "''repo/b.ts''" example_text
        example_env_deleted example_twins "''repo''" example_env_deleted "()" example_twin_a]
      f t a r example_text_nonempty
    by blast
qed

text \<open>
  C8, as the specification states it, fails on two invocations in a row. The first
  leaves the text of \<^verbatim>\<open>b.ts\<close> in the cache; the file is then deleted; the second
  invocation, which starts from that cache, still reports the two files as duplicates,
  while the same invocation on an empty cache reports nothing.
\<close>

theorem second_invocation_sees_first:
  "fileCache (snd (analyzeArchitecture example_env example_twins ''repo'' empty_caches))
     (path_join example_env ''repo'' (path example_twin_b)) = Some example_text \<and>
   (\<exists>r. fst (analyzeArchitecture example_env_deleted example_twins ''repo''
              (snd (analyzeArchitecture example_env example_twins ''repo'' empty_caches)))
          = Some r \<and> duplication r \<noteq> []) \<and>
   (\<exists>r. fst (analyzeArchitecture example_env_deleted example_twins ''repo'' empty_caches)
          = Some r \<and> duplication r = [])"
proof -
  let ?st1 = "snd (analyzeArchitecture example_env example_twins ''repo'' empty_caches)"
  obtain r where r: "fst (analyzeArchitecture example_env_deleted example_twins ''repo'' ?st1)
        = Some r"
    and dr: "duplication r = fst (detectDuplication example_env_deleted ''repo'' example_twins ?st1)"
    using analyzeArchitecture_fields [of example_env_deleted example_twins "''repo''" ?st1]
    by blast
  obtain inst where "instances_for (path example_twin_a) (path example_twin_b)
      (duplication r) = [inst]"
    unfolding dr using example_second_run_duplication by blast
  then have "duplication r \<noteq> []" by (auto simp: instances_for_def)
  moreover obtain r0 where
    "fst (analyzeArchitecture example_env_deleted example_twins ''repo'' empty_caches) = Some r0"
    "duplication r0 = fst (detectDuplication example_env_deleted ''repo'' example_twins empty_caches)"
    using analyzeArchitecture_fields [of example_env_deleted example_twins "''repo''" empty_caches]
    by blast
  ultimately show ?thesis
    using r example_first_run_caches(2) example_fresh_run_duplication by auto
qed

end
